theory Spec2Isabelle
  imports Complex_Main "HOL-Library.Char_ord" "HOL-Library.List_Lexorder" "HOL-Library.Sublist"
begin

section \<open>Data model\<close>

text \<open>
  The tool \<^verbatim>\<open>go-zed-tasks\<close> keeps editor documents (\<^verbatim>\<open>tasks.json\<close>, \<^verbatim>\<open>debug.json\<close>)
  as \<^verbatim>\<open>[]map[string]any\<close>. A value of Go's \<^verbatim>\<open>any\<close>, as \<^verbatim>\<open>encoding/json\<close> produces it and as
  \<^verbatim>\<open>makeGeneratedTasks\<close> builds it, is null, a bool, a number (float64; every finite float64
  is a real), a string, an array or an object. An object is an association list read with
  \<^const>\<open>map_of\<close>, which is how every \<^verbatim>\<open>m[key]\<close> of the source is translated.
\<close>

datatype any =
    ANull
  | ABool bool
  | ANum real
  | AStr string
  | AArr "any list"
  | AObj "(string \<times> any) list"

type_synonym task = "(string \<times> any) list"

record Config =
  TasksPath :: string
  DebugPath :: string
  LabelPrefix :: string
  DebugLabelPrefix :: string
  GoBinary :: string
  TestNameRegex :: string
  GoListRegex :: string
  AdditionalGoTestArgs :: "string list"
  UseNewTerminal :: bool
  AllowConcurrentRuns :: bool
  Reveal :: string
  Hide :: string
  PruneGenerated :: bool
  GeneratedEnvKey :: string
  GeneratedEnvValue :: string
  SubtestTimeout :: string

record mergeStats =
  Added :: nat
  Updated :: nat
  Removed :: nat

text \<open>
  Errors are values. The source builds them with \<^verbatim>\<open>fmt.Errorf\<close> or passes on the error of
  a library call; one constructor stands for each place that creates one.
\<close>

datatype error =
    ReadFileError
  | UnterminatedBlockComment
  | UnterminatedString
  | UnmarshalError
  | ScannerTokenTooLong
  | DiscoveryFailed
  | InvalidTimeout

text \<open>The environment values of \<^verbatim>\<open>envDefault\<close>, used for the concrete instances below.\<close>

definition defaultConfig :: Config where
  "defaultConfig = \<lparr>
     TasksPath = ''.zed/tasks.json'', DebugPath = ''.zed/debug.json'',
     LabelPrefix = ''go:'', DebugLabelPrefix = ''go:debug:'', GoBinary = ''go'',
     TestNameRegex = ''^Test'', GoListRegex = ''^Test'', AdditionalGoTestArgs = [],
     UseNewTerminal = False, AllowConcurrentRuns = False,
     Reveal = ''always'', Hide = ''never'', PruneGenerated = True,
     GeneratedEnvKey = ''ZED_GO_TEST_TASK_GENERATED'', GeneratedEnvValue = ''1'',
     SubtestTimeout = ''30s'' \<rparr>"

section \<open>Recognising generated entries\<close>

text \<open>
  \<^verbatim>\<open>isGenerated\<close>: each \<^verbatim>\<open>v, ok := ...\<close> followed by \<^verbatim>\<open>if !ok { return false }\<close> is one
  \<^theory_text>\<open>case\<close>; a failed type assertion is the catch-all branch.
\<close>

definition isGenerated :: "task \<Rightarrow> Config \<Rightarrow> bool" where
  "isGenerated task cfg =
     (case map_of task ''env'' of
        None \<Rightarrow> False
      | Some envAny \<Rightarrow>
          (case envAny of
             AObj env \<Rightarrow>
               (case map_of env (GeneratedEnvKey cfg) of
                  None \<Rightarrow> False
                | Some valAny \<Rightarrow>
                    (case valAny of
                       AStr val \<Rightarrow> val = GeneratedEnvValue cfg
                     | _ \<Rightarrow> False))
           | _ \<Rightarrow> False))"

section \<open>Merging generated entries into a document\<close>

text \<open>
  \<^verbatim>\<open>label, ok := task["label"].(string)\<close>: the string under \<^verbatim>\<open>"label"\<close>, if there is one.
  \<^verbatim>\<open>label, _ := task["label"].(string)\<close> is the same read with the zero value, the empty
  string, when the assertion fails.
\<close>

definition labelString :: "task \<Rightarrow> string option" where
  "labelString task =
     (case map_of task ''label'' of
        Some (AStr label) \<Rightarrow> Some label
      | _ \<Rightarrow> None)"

definition labelOrEmpty :: "task \<Rightarrow> string" where
  "labelOrEmpty task = (case labelString task of Some label \<Rightarrow> label | None \<Rightarrow> [])"

text \<open>
  The first loop of \<^verbatim>\<open>mergeTasks\<close>: generated entries are dropped and counted when pruning
  is on; every other entry is appended to \<^verbatim>\<open>filtered\<close>.
\<close>

fun pruneLoop :: "Config \<Rightarrow> task list \<Rightarrow> task list \<Rightarrow> nat \<Rightarrow> task list \<times> nat" where
  "pruneLoop cfg [] filtered removed = (filtered, removed)"
| "pruneLoop cfg (task # rest) filtered removed =
     (if PruneGenerated cfg \<and> isGenerated task cfg
      then pruneLoop cfg rest filtered (removed + 1)
      else pruneLoop cfg rest (filtered @ [task]) removed)"

text \<open>The second loop: \<^verbatim>\<open>labelIndex[label] = i\<close> for every entry with a string label.\<close>

fun indexLoop :: "task list \<Rightarrow> nat \<Rightarrow> (string \<rightharpoonup> nat) \<Rightarrow> (string \<rightharpoonup> nat)" where
  "indexLoop [] i labelIndex = labelIndex"
| "indexLoop (task # rest) i labelIndex =
     (case labelString task of
        Some label \<Rightarrow> indexLoop rest (i + 1) (labelIndex(label \<mapsto> i))
      | None \<Rightarrow> indexLoop rest (i + 1) labelIndex)"

text \<open>
  The third loop: an entry whose label is indexed replaces the entry at that index, any
  other entry is appended and indexed. The index read from \<^verbatim>\<open>labelIndex\<close> is always
  within \<^verbatim>\<open>filtered\<close> (lemma \<open>upsertLoop_index_in_range\<close> below), so the assignment
  \<^verbatim>\<open>filtered[idx] = task\<close> never panics and \<^term>\<open>filtered[idx := task]\<close> is what it does.
\<close>

fun upsertLoop ::
  "task list \<Rightarrow> task list \<Rightarrow> (string \<rightharpoonup> nat) \<Rightarrow> nat \<Rightarrow> nat \<Rightarrow> task list \<times> nat \<times> nat" where
  "upsertLoop [] filtered labelIndex added updated = (filtered, added, updated)"
| "upsertLoop (task # rest) filtered labelIndex added updated =
     (case labelIndex (labelOrEmpty task) of
        Some idx \<Rightarrow> upsertLoop rest (filtered[idx := task]) labelIndex added (updated + 1)
      | None \<Rightarrow>
          upsertLoop rest (filtered @ [task])
            (labelIndex(labelOrEmpty task \<mapsto> length filtered)) (added + 1) updated)"

text \<open>
  \<^verbatim>\<open>mergeTasks\<close>. Its first argument is what \<^verbatim>\<open>readTasks(tasksPath)\<close> returned: an error,
  handed back unchanged, or the existing entries.
\<close>

definition mergeTasks ::
  "error + task list \<Rightarrow> task list \<Rightarrow> Config \<Rightarrow> error + task list \<times> mergeStats" where
  "mergeTasks readResult generated cfg =
     (case readResult of
        Inl err \<Rightarrow> Inl err
      | Inr existing \<Rightarrow>
          (case pruneLoop cfg existing [] 0 of
             (filtered, removed) \<Rightarrow>
               (case upsertLoop generated filtered (indexLoop filtered 0 Map.empty) 0 0 of
                  (merged, added, updated) \<Rightarrow>
                    Inr (merged, \<lparr>Added = added, Updated = updated, Removed = removed\<rparr>))))"

text \<open>The loop of \<^verbatim>\<open>runClear\<close>: every generated entry is dropped and counted.\<close>

fun clearLoop :: "Config \<Rightarrow> task list \<Rightarrow> task list \<Rightarrow> nat \<Rightarrow> task list \<times> nat" where
  "clearLoop cfg [] filtered removed = (filtered, removed)"
| "clearLoop cfg (task # rest) filtered removed =
     (if isGenerated task cfg
      then clearLoop cfg rest filtered (removed + 1)
      else clearLoop cfg rest (filtered @ [task]) removed)"

section \<open>Library functions the tool calls\<close>

text \<open>
  \<^verbatim>\<open>strings.TrimSpace\<close> and \<^verbatim>\<open>bytes.TrimSpace\<close> remove leading and trailing white space as
  Unicode defines it: the six ASCII characters below and the code points U+0085, U+00A0,
  U+1680, U+2000 to U+200A, U+2028, U+2029, U+202F, U+205F and U+3000, read from their
  UTF-8 encodings. A byte sequence that is not one of these encodings is not white space.
\<close>

definition asciiSpace :: "char \<Rightarrow> bool" where
  "asciiSpace c = (c \<in> set [CHR 0x09, CHR 0x0A, CHR 0x0B, CHR 0x0C, CHR 0x0D, CHR 0x20])"

definition unicodeSpaces :: "string list" where
  "unicodeSpaces =
     [[CHR 0xC2, CHR 0x85], [CHR 0xC2, CHR 0xA0], [CHR 0xE1, CHR 0x9A, CHR 0x80],
      [CHR 0xE2, CHR 0x80, CHR 0x80], [CHR 0xE2, CHR 0x80, CHR 0x81],
      [CHR 0xE2, CHR 0x80, CHR 0x82], [CHR 0xE2, CHR 0x80, CHR 0x83],
      [CHR 0xE2, CHR 0x80, CHR 0x84], [CHR 0xE2, CHR 0x80, CHR 0x85],
      [CHR 0xE2, CHR 0x80, CHR 0x86], [CHR 0xE2, CHR 0x80, CHR 0x87],
      [CHR 0xE2, CHR 0x80, CHR 0x88], [CHR 0xE2, CHR 0x80, CHR 0x89],
      [CHR 0xE2, CHR 0x80, CHR 0x8A], [CHR 0xE2, CHR 0x80, CHR 0xA8],
      [CHR 0xE2, CHR 0x80, CHR 0xA9], [CHR 0xE2, CHR 0x80, CHR 0xAF],
      [CHR 0xE2, CHR 0x81, CHR 0x9F], [CHR 0xE3, CHR 0x80, CHR 0x80]]"

text \<open>The width in bytes of the white-space character at the front (at the back), or 0.\<close>

definition spaceWidthFront :: "string \<Rightarrow> nat" where
  "spaceWidthFront s =
     (case s of
        [] \<Rightarrow> 0
      | c # _ \<Rightarrow>
          if asciiSpace c then 1
          else (case find (\<lambda>w. prefix w s) unicodeSpaces of Some w \<Rightarrow> length w | None \<Rightarrow> 0))"

definition spaceWidthBack :: "string \<Rightarrow> nat" where
  "spaceWidthBack s =
     (case rev s of
        [] \<Rightarrow> 0
      | c # _ \<Rightarrow>
          if asciiSpace c then 1
          else (case find (\<lambda>w. suffix w s) unicodeSpaces of Some w \<Rightarrow> length w | None \<Rightarrow> 0))"

function trimLeftSpace :: "string \<Rightarrow> string" where
  "trimLeftSpace s =
     (if spaceWidthFront s = 0 then s else trimLeftSpace (drop (spaceWidthFront s) s))"
  by pat_completeness auto
termination
  by (relation "measure length") (auto simp: spaceWidthFront_def split: list.splits)

function trimRightSpace :: "string \<Rightarrow> string" where
  "trimRightSpace s =
     (if spaceWidthBack s = 0 then s
      else trimRightSpace (take (length s - spaceWidthBack s) s))"
  by pat_completeness auto
termination
  by (relation "measure length") (auto simp: spaceWidthBack_def split: list.splits)

declare trimLeftSpace.simps [simp del] trimRightSpace.simps [simp del]

definition TrimSpace :: "string \<Rightarrow> string" where
  "TrimSpace s = trimRightSpace (trimLeftSpace s)"

text \<open>
  \<^verbatim>\<open>bufio.Scanner\<close> with the default split function \<^verbatim>\<open>ScanLines\<close> and the default buffer:
  the tokens are the lines without their end-of-line marker (a trailing carriage return is
  dropped as well); a last line without a newline is a token unless it is empty; a line
  that does not fit the buffer of \<^verbatim>\<open>MaxScanTokenSize\<close> bytes stops the scan with
  \<^verbatim>\<open>ErrTooLong\<close>. The result is the tokens \<^verbatim>\<open>Scan\<close> delivered and what \<^verbatim>\<open>Err\<close> returns then.
\<close>

definition MaxScanTokenSize :: nat where
  "MaxScanTokenSize = 64 * 1024"

definition dropCR :: "string \<Rightarrow> string" where
  "dropCR data = (if data \<noteq> [] \<and> last data = CHR 0x0D then butlast data else data)"

fun scanLines :: "string \<Rightarrow> string \<Rightarrow> string list \<times> error option" where
  "scanLines [] token = (if token = [] then ([], None) else ([dropCR token], None))"
| "scanLines (c # rest) token =
     (if c = CHR 0x0A then
        (case scanLines rest [] of (tokens, err) \<Rightarrow> (dropCR token # tokens, err))
      else if MaxScanTokenSize \<le> length token + 1 then ([], Some ScannerTokenTooLong)
      else scanLines rest (token @ [c]))"

section \<open>Selecting the test names\<close>

text \<open>\<^verbatim>\<open>intersectTests\<close>: the names of the file, in order, that the toolchain listed.\<close>

definition intersectTests :: "string list \<Rightarrow> string set \<Rightarrow> string list" where
  "intersectTests fileTests listed = filter (\<lambda>name. name \<in> listed) fileTests"

text \<open>One loop of \<^verbatim>\<open>mergeUniqueTests\<close>, on the pair \<^verbatim>\<open>(seen, merged)\<close>.\<close>

fun appendUnseen :: "string list \<Rightarrow> string set \<times> string list \<Rightarrow> string set \<times> string list" where
  "appendUnseen [] (seen, merged) = (seen, merged)"
| "appendUnseen (testName # rest) (seen, merged) =
     (if testName \<in> seen then appendUnseen rest (seen, merged)
      else appendUnseen rest (insert testName seen, merged @ [testName]))"

definition mergeUniqueTests :: "string list \<Rightarrow> string list \<Rightarrow> string list" where
  "mergeUniqueTests base extra = snd (appendUnseen extra (appendUnseen base ({}, [])))"

record goTestJSONEvent =
  Action :: string
  Test :: string

text \<open>
  The loop of \<^verbatim>\<open>parseRunEventsFromGoTestJSON\<close> over the scanned lines. \<open>unmarshal\<close> is
  \<^verbatim>\<open>json.Unmarshal\<close> into a \<^verbatim>\<open>goTestJSONEvent\<close>, \<open>None\<close> when it returns an error. The set
  \<^verbatim>\<open>seen\<close> is a list without repetitions; its order does not matter, it is sorted at the end.
\<close>

fun runEventsLoop ::
  "(string \<Rightarrow> goTestJSONEvent option) \<Rightarrow> string list \<Rightarrow> string list \<Rightarrow> string list" where
  "runEventsLoop unmarshal [] seen = seen"
| "runEventsLoop unmarshal (text # rest) seen =
     (if TrimSpace text = [] then runEventsLoop unmarshal rest seen
      else
        (case unmarshal (TrimSpace text) of
           None \<Rightarrow> runEventsLoop unmarshal rest seen
         | Some ev \<Rightarrow>
             if Action ev = ''run'' \<and> Test ev \<noteq> []
             then runEventsLoop unmarshal rest (List.insert (Test ev) seen)
             else runEventsLoop unmarshal rest seen))"

definition parseRunEventsFromGoTestJSON ::
  "(string \<Rightarrow> goTestJSONEvent option) \<Rightarrow> string \<Rightarrow> error + string list" where
  "parseRunEventsFromGoTestJSON unmarshal output =
     (case scanLines output [] of
        (lines, Some err) \<Rightarrow> Inl err
      | (lines, None) \<Rightarrow> Inr (sort (runEventsLoop unmarshal lines [])))"

text \<open>
  \<^verbatim>\<open>discoverSubtestsWithGo\<close>. The pair \<open>(out, failed)\<close> is what \<^verbatim>\<open>cmd.CombinedOutput()\<close>
  returns when the command is run: the combined output, and whether \<^verbatim>\<open>err\<close> is not nil.
\<close>

definition discoverSubtestsWithGo ::
  "(string \<Rightarrow> goTestJSONEvent option) \<Rightarrow> string list \<Rightarrow> string \<times> bool \<Rightarrow> error + string list" where
  "discoverSubtestsWithGo unmarshal topLevelTests cmdResult =
     (if topLevelTests = [] then Inr []
      else
        (case parseRunEventsFromGoTestJSON unmarshal (fst cmdResult) of
           Inl parseErr \<Rightarrow> Inl parseErr
         | Inr discovered \<Rightarrow>
             if snd cmdResult \<and> discovered = [] then Inl DiscoveryFailed
             else Inr discovered))"

text \<open>
  The part of \<^verbatim>\<open>runGenerate\<close> that computes \<^verbatim>\<open>selectedTests\<close>. \<open>timeout\<close> is what
  \<^verbatim>\<open>resolveSubtestTimeout\<close> returns; it is read only when subtests are discovered.
\<close>

definition selectedTests ::
  "bool \<Rightarrow> error + int \<Rightarrow> (string \<Rightarrow> goTestJSONEvent option) \<Rightarrow> string \<times> bool \<Rightarrow>
   string list \<Rightarrow> string set \<Rightarrow> error + string list" where
  "selectedTests discoverSubtests timeout unmarshal cmdResult testsInFile testsListedByGo =
     (let runnableTests = sort (intersectTests testsInFile testsListedByGo) in
      if discoverSubtests then
        (case timeout of
           Inl err \<Rightarrow> Inl err
         | Inr subtestDiscoveryTimeout \<Rightarrow>
             (case discoverSubtestsWithGo unmarshal runnableTests cmdResult of
                Inl err \<Rightarrow> Inl err
              | Inr discoveredTests \<Rightarrow>
                  Inr (sort (mergeUniqueTests runnableTests discoveredTests))))
      else Inr runnableTests)"

text \<open>
  For the concrete instances: a line of the event stream, and \<^verbatim>\<open>json.Unmarshal\<close> on the
  three event lines used below (any other line is taken as not decodable).
\<close>

definition eventLine :: "string \<Rightarrow> string \<Rightarrow> string" where
  "eventLine action test =
     ''{'' @ [CHR 0x22] @ ''Action'' @ [CHR 0x22] @ '':'' @ [CHR 0x22] @ action @ [CHR 0x22] @
     '','' @ [CHR 0x22] @ ''Test'' @ [CHR 0x22] @ '':'' @ [CHR 0x22] @ test @ [CHR 0x22] @ ''}''"

definition unmarshalExample :: "string \<Rightarrow> goTestJSONEvent option" where
  "unmarshalExample =
     map_of
       [(eventLine ''run'' ''TestAlpha'', \<lparr>Action = ''run'', Test = ''TestAlpha''\<rparr>),
        (eventLine ''run'' ''TestAlpha/case1'', \<lparr>Action = ''run'', Test = ''TestAlpha/case1''\<rparr>),
        (eventLine ''fail'' ''TestAlpha'', \<lparr>Action = ''fail'', Test = ''TestAlpha''\<rparr>)]"

section \<open>Run selectors\<close>

text \<open>
  \<^verbatim>\<open>regexp.QuoteMeta\<close> puts a backslash before each of the bytes \<^verbatim>\<open>\.+*?()|[]{}^$\<close> and
  leaves every other byte as it is.
\<close>

definition special :: "char \<Rightarrow> bool" where
  "special b = (b \<in> set (CHR 0x5C # ''.+*?()|[]{}^$''))"

definition QuoteMeta :: "string \<Rightarrow> string" where
  "QuoteMeta s = concat (map (\<lambda>b. if special b then [CHR 0x5C, b] else [b]) s)"

text \<open>
  \<^verbatim>\<open>strings.Split(s, "/")\<close> and \<^verbatim>\<open>strings.Join(elems, "/")\<close>, for a separator of one byte:
  splitting cuts at every separator, so the empty string has the one segment \<open>[]\<close>.
\<close>

fun Split :: "string \<Rightarrow> char \<Rightarrow> string list" where
  "Split [] sep = [[]]"
| "Split (c # s) sep =
     (if c = sep then [] # Split s sep
      else (case Split s sep of [] \<Rightarrow> [[c]] | segment # segments \<Rightarrow> (c # segment) # segments))"

fun Join :: "string list \<Rightarrow> char \<Rightarrow> string" where
  "Join [] sep = []"
| "Join [a] sep = a"
| "Join (a # b # elems) sep = a @ sep # Join (b # elems) sep"

definition runPatternForTestName :: "string \<Rightarrow> string" where
  "runPatternForTestName testName =
     (if testName = [] then ''^$''
      else Join (map (\<lambda>segment. ''^'' @ QuoteMeta segment @ ''$'') (Split testName (CHR ''/'')))
             (CHR ''/''))"

text \<open>
  The synthetic matcher of the specification, for selectors made of anchored literals: a
  selector is cut at its slashes, a name at its slashes, and each segment of the selector
  has to be \<^verbatim>\<open>^\<close>, an escaped literal and \<^verbatim>\<open>$\<close>, where the literal is the segment of the name.
  In an escaped literal a backslash stands before a special byte and nowhere else, and no
  special byte stands without one.
\<close>

fun unquoteLiteral :: "string \<Rightarrow> string option" where
  "unquoteLiteral [] = Some []"
| "unquoteLiteral (c # cs) =
     (if c = CHR 0x5C then
        (case cs of
           [] \<Rightarrow> None
         | d # ds \<Rightarrow> if special d then map_option ((#) d) (unquoteLiteral ds) else None)
      else if special c then None
      else map_option ((#) c) (unquoteLiteral cs))"

definition segmentMatches :: "string \<Rightarrow> string \<Rightarrow> bool" where
  "segmentMatches pattern segment =
     (case pattern of
        [] \<Rightarrow> False
      | c # rest \<Rightarrow>
          c = CHR ''^'' \<and> rest \<noteq> [] \<and> last rest = CHR ''$'' \<and>
          unquoteLiteral (butlast rest) = Some segment)"

definition selectorMatches :: "string \<Rightarrow> string \<Rightarrow> bool" where
  "selectorMatches selector name =
     list_all2 segmentMatches (Split selector (CHR ''/'')) (Split name (CHR ''/''))"

section \<open>Building the generated entries\<close>

text \<open>
  \<^verbatim>\<open>makeGeneratedTasks\<close>: one entry per test name. The \<^verbatim>\<open>env\<close> map literal is written with the
  marker key first; a map literal whose keys repeat at run time keeps the value written
  last, so the association list, which is read from the front, has the three entries in
  reverse order.
\<close>

definition makeGeneratedTasks ::
  "string list \<Rightarrow> string \<Rightarrow> string \<Rightarrow> Config \<Rightarrow> string list \<Rightarrow> task list" where
  "makeGeneratedTasks testNames pkgArg relFilePath cfg extraGoTestArgs =
     map (\<lambda>testName.
        [(''label'', AStr (LabelPrefix cfg @ testName)),
         (''command'', AStr (GoBinary cfg)),
         (''args'', AArr (map AStr
            ([''test''] @ extraGoTestArgs @ [pkgArg, ''-run'', runPatternForTestName testName]))),
         (''use_new_terminal'', ABool (UseNewTerminal cfg)),
         (''allow_concurrent_runs'', ABool (AllowConcurrentRuns cfg)),
         (''reveal'', AStr (Reveal cfg)),
         (''hide'', AStr (Hide cfg)),
         (''env'', AObj
            [(''ZED_GO_TEST_FILE'', AStr relFilePath),
             (''ZED_GO_TEST_NAME'', AStr testName),
             (GeneratedEnvKey cfg, AStr (GeneratedEnvValue cfg))])])
       testNames"

section \<open>Reading a relaxed JSON document\<close>

text \<open>
  The loop of \<^verbatim>\<open>stripJSONComments\<close>, on the bytes from index \<^verbatim>\<open>i\<close> on, with the four flags and
  the output so far. An iteration that executes \<^verbatim>\<open>i++\<close> before \<^verbatim>\<open>continue\<close> consumes two bytes.
  The result is the output and the flags when the input is exhausted.
\<close>

fun stripCommentsLoop ::
  "string \<Rightarrow> bool \<Rightarrow> bool \<Rightarrow> bool \<Rightarrow> bool \<Rightarrow> string \<Rightarrow> string \<times> bool \<times> bool \<times> bool \<times> bool" where
  "stripCommentsLoop [] inString inLineComment inBlockComment escape out =
     (out, inString, inLineComment, inBlockComment, escape)"
| "stripCommentsLoop (ch # rest) inString inLineComment inBlockComment escape out =
     (if inLineComment then
        (if ch = CHR 0x0A
         then stripCommentsLoop rest inString False inBlockComment escape (out @ [ch])
         else stripCommentsLoop rest inString inLineComment inBlockComment escape out)
      else if inBlockComment then
        (case rest of
           [] \<Rightarrow> stripCommentsLoop rest inString inLineComment inBlockComment escape out
         | next # rest' \<Rightarrow>
             if ch = CHR ''*'' \<and> next = CHR ''/''
             then stripCommentsLoop rest' inString inLineComment False escape out
             else stripCommentsLoop rest inString inLineComment inBlockComment escape out)
      else if inString then
        (if escape
         then stripCommentsLoop rest inString inLineComment inBlockComment False (out @ [ch])
         else if ch = CHR 0x5C
         then stripCommentsLoop rest inString inLineComment inBlockComment True (out @ [ch])
         else if ch = CHR 0x22
         then stripCommentsLoop rest False inLineComment inBlockComment escape (out @ [ch])
         else stripCommentsLoop rest inString inLineComment inBlockComment escape (out @ [ch]))
      else if ch = CHR 0x22
      then stripCommentsLoop rest True inLineComment inBlockComment escape (out @ [ch])
      else
        (case rest of
           [] \<Rightarrow> stripCommentsLoop rest inString inLineComment inBlockComment escape (out @ [ch])
         | next # rest' \<Rightarrow>
             if ch = CHR ''/'' \<and> next = CHR ''/''
             then stripCommentsLoop rest' inString True inBlockComment escape out
             else if ch = CHR ''/'' \<and> next = CHR ''*''
             then stripCommentsLoop rest' inString inLineComment True escape out
             else stripCommentsLoop rest inString inLineComment inBlockComment escape
                    (out @ [ch])))"

definition stripJSONComments :: "string \<Rightarrow> error + string" where
  "stripJSONComments data =
     (case stripCommentsLoop data False False False False [] of
        (out, inString, inLineComment, inBlockComment, escape) \<Rightarrow>
          if inBlockComment then Inl UnterminatedBlockComment
          else if inString then Inl UnterminatedString
          else Inr out)"

definition isJSONWhitespace :: "char \<Rightarrow> bool" where
  "isJSONWhitespace ch = (ch = CHR '' '' \<or> ch = CHR 0x09 \<or> ch = CHR 0x0A \<or> ch = CHR 0x0D)"

text \<open>
  The look-ahead of \<^verbatim>\<open>stripTrailingCommas\<close> after a comma: skip white space, then see
  whether a closing brace or bracket follows.
\<close>

definition closerFollows :: "string \<Rightarrow> bool" where
  "closerFollows rest =
     (case dropWhile isJSONWhitespace rest of
        [] \<Rightarrow> False
      | c # _ \<Rightarrow> c = CHR ''}'' \<or> c = CHR '']'')"

fun stripCommasLoop :: "string \<Rightarrow> bool \<Rightarrow> bool \<Rightarrow> string \<Rightarrow> string" where
  "stripCommasLoop [] inString escape out = out"
| "stripCommasLoop (ch # rest) inString escape out =
     (if inString then
        (if escape then stripCommasLoop rest inString False (out @ [ch])
         else if ch = CHR 0x5C then stripCommasLoop rest inString True (out @ [ch])
         else if ch = CHR 0x22 then stripCommasLoop rest False escape (out @ [ch])
         else stripCommasLoop rest inString escape (out @ [ch]))
      else if ch = CHR 0x22 then stripCommasLoop rest True escape (out @ [ch])
      else if ch = CHR '','' \<and> closerFollows rest then stripCommasLoop rest inString escape out
      else stripCommasLoop rest inString escape (out @ [ch]))"

definition stripTrailingCommas :: "string \<Rightarrow> string" where
  "stripTrailingCommas data = stripCommasLoop data False False []"

definition normalizeRelaxedJSON :: "string \<Rightarrow> error + string" where
  "normalizeRelaxedJSON data =
     (case stripJSONComments data of
        Inl err \<Rightarrow> Inl err
      | Inr withoutComments \<Rightarrow> Inr (stripTrailingCommas withoutComments))"

text \<open>
  \<^verbatim>\<open>readTasks\<close>. What \<^verbatim>\<open>os.ReadFile\<close> returned is a value of \<open>fileRead\<close>; \<open>unmarshal\<close> is
  \<^verbatim>\<open>json.Unmarshal\<close> into a \<^verbatim>\<open>[]map[string]any\<close>.
\<close>

datatype fileRead = NotExist | ReadFailed | Contents string

definition readTasks :: "(string \<Rightarrow> error + task list) \<Rightarrow> fileRead \<Rightarrow> error + task list" where
  "readTasks unmarshal file =
     (case file of
        NotExist \<Rightarrow> Inr []
      | ReadFailed \<Rightarrow> Inl ReadFileError
      | Contents data \<Rightarrow>
          if TrimSpace data = [] then Inr []
          else
            (case normalizeRelaxedJSON (TrimSpace data) of
               Inl err \<Rightarrow> Inl err
             | Inr normalized \<Rightarrow> unmarshal normalized))"

section \<open>Notions used in the proofs\<close>

text \<open>The string labels of a document, in order; entries without one contribute nothing.\<close>

definition stringLabels :: "task list \<Rightarrow> string list" where
  "stringLabels ts = List.map_filter labelString ts"

text \<open>
  One iteration of the third loop as a function on the pair \<^verbatim>\<open>(filtered, labelIndex)\<close>;
  \<open>upsertLoop_foldl\<close> shows that \<^const>\<open>upsertLoop\<close> is its left fold.
\<close>

definition upsertStep ::
  "task list \<times> (string \<rightharpoonup> nat) \<Rightarrow> task \<Rightarrow> task list \<times> (string \<rightharpoonup> nat)" where
  "upsertStep s task =
     (case snd s (labelOrEmpty task) of
        Some idx \<Rightarrow> ((fst s)[idx := task], snd s)
      | None \<Rightarrow> (fst s @ [task], (snd s)(labelOrEmpty task \<mapsto> length (fst s))))"

text \<open>What the first loop leaves in \<^verbatim>\<open>filtered\<close>.\<close>

definition keptEntries :: "Config \<Rightarrow> task list \<Rightarrow> task list" where
  "keptEntries cfg existing =
     filter (\<lambda>t. \<not> (PruneGenerated cfg \<and> isGenerated t cfg)) existing"

text \<open>
  What the second loop leaves in \<^verbatim>\<open>labelIndex\<close>, said without the loop: \<open>label\<close> is indexed
  at \<open>i\<close> exactly when entry \<open>i\<close> has the string label \<open>label\<close> and no later entry has
  (lemma \<open>indexLoop_lastLabelled\<close>).
\<close>

definition lastLabelled :: "task list \<Rightarrow> nat \<Rightarrow> string \<Rightarrow> bool" where
  "lastLabelled filtered i label =
     (i < length filtered \<and> labelString (filtered ! i) = Some label \<and>
      Some label \<notin> set (map labelString (drop (Suc i) filtered)))"

text \<open>
  The generated entries that the third loop writes to position \<open>i\<close> of \<^verbatim>\<open>filtered\<close>, in the
  order of the generated set: those whose label, read as the third loop reads it, is
  indexed at \<open>i\<close>.
\<close>

definition overwriting :: "task list \<Rightarrow> task list \<Rightarrow> nat \<Rightarrow> task list" where
  "overwriting filtered generated i =
     filter (\<lambda>task. lastLabelled filtered i (labelOrEmpty task)) generated"

text \<open>Every indexed label points inside the list, at an entry that reads as that label.\<close>

definition indexSound :: "task list \<times> (string \<rightharpoonup> nat) \<Rightarrow> bool" where
  "indexSound s =
     (\<forall>l i. snd s l = Some i \<longrightarrow> i < length (fst s) \<and> labelOrEmpty (fst s ! i) = l)"

text \<open>Every string label in the list is indexed at its own position.\<close>

definition labelsAgree :: "task list \<times> (string \<rightharpoonup> nat) \<Rightarrow> bool" where
  "labelsAgree s =
     (\<forall>j<length (fst s). \<forall>l. labelString (fst s ! j) = Some l \<longrightarrow> snd s l = Some j)"

text \<open>The index is the one the second loop would build for the list.\<close>

definition indexExact :: "task list \<times> (string \<rightharpoonup> nat) \<Rightarrow> bool" where
  "indexExact s = (snd s = indexLoop (fst s) 0 Map.empty)"

text \<open>
  Entries for the concrete instances: two entries as \<^verbatim>\<open>makeGeneratedTasks\<close> tags them, and two
  hand-written ones, the second under the label of a generated entry.
\<close>

definition generatedAlpha :: task where
  "generatedAlpha =
     [(''label'', AStr ''go:TestAlpha''), (''command'', AStr ''go''),
      (''env'', AObj [(''ZED_GO_TEST_TASK_GENERATED'', AStr ''1''),
                      (''ZED_GO_TEST_NAME'', AStr ''TestAlpha'')])]"

definition generatedOld :: task where
  "generatedOld =
     [(''label'', AStr ''go:TestOld''), (''command'', AStr ''go''),
      (''env'', AObj [(''ZED_GO_TEST_TASK_GENERATED'', AStr ''1''),
                      (''ZED_GO_TEST_NAME'', AStr ''TestOld'')])]"

definition userBuild :: task where
  "userBuild = [(''label'', AStr ''my-build''), (''command'', AStr ''make'')]"

definition userAlpha :: task where
  "userAlpha = [(''label'', AStr ''go:TestAlpha''), (''command'', AStr ''echo'')]"

text \<open>The name one scanned line adds to \<^verbatim>\<open>seen\<close>, if any.\<close>

definition runEventName :: "(string \<Rightarrow> goTestJSONEvent option) \<Rightarrow> string \<Rightarrow> string option" where
  "runEventName unmarshal line =
     (if TrimSpace line = [] then None
      else
        (case unmarshal (TrimSpace line) of
           None \<Rightarrow> None
         | Some ev \<Rightarrow> if Action ev = ''run'' \<and> Test ev \<noteq> [] then Some (Test ev) else None))"

text \<open>
  The event stream of the example: two run events, a line that is not JSON, a fail event.
\<close>

definition exampleOutput :: string where
  "exampleOutput =
     eventLine ''run'' ''TestAlpha'' @ [CHR 0x0A] @
     eventLine ''run'' ''TestAlpha/case1'' @ [CHR 0x0A] @
     ''not json'' @ [CHR 0x0A] @
     eventLine ''fail'' ''TestAlpha'' @ [CHR 0x0A]"

text \<open>
  The bytes between the quotes of a string literal, as JSON writes them: a byte that is
  neither a quote nor a backslash, or a backslash followed by any byte.
\<close>

fun stringBody :: "string \<Rightarrow> bool" where
  "stringBody [] = True"
| "stringBody (c # cs) =
     (if c = CHR 0x5C then (case cs of [] \<Rightarrow> False | _ # cs' \<Rightarrow> stringBody cs')
      else c \<noteq> CHR 0x22 \<and> stringBody cs)"

text \<open>
  How one byte changes the pair \<^verbatim>\<open>(inString, escape)\<close> in \<^verbatim>\<open>stripTrailingCommas\<close>.
\<close>

definition stringStep :: "bool \<times> bool \<Rightarrow> char \<Rightarrow> bool \<times> bool" where
  "stringStep st ch =
     (if fst st then
        (if snd st then (True, False)
         else if ch = CHR 0x5C then (True, True)
         else if ch = CHR 0x22 then (False, False)
         else (True, False))
      else if ch = CHR 0x22 then (True, snd st)
      else (False, snd st))"

text \<open>
  For the concrete instances: a decoder that hands back the text it was given, as the
  label of a single entry.
\<close>

definition echoUnmarshal :: "string \<Rightarrow> error + task list" where
  "echoUnmarshal normalized = Inr [[(''label'', AStr normalized)]]"

section \<open>Properties of the loops\<close>

lemma pruneLoop_eq:
  "pruneLoop cfg existing filtered removed =
     (filtered @ filter (\<lambda>t. \<not> (PruneGenerated cfg \<and> isGenerated t cfg)) existing,
      removed + length (filter (\<lambda>t. PruneGenerated cfg \<and> isGenerated t cfg) existing))"
  by (induction existing arbitrary: filtered removed) auto

lemma clearLoop_eq:
  "clearLoop cfg existing filtered removed =
     (filtered @ filter (\<lambda>t. \<not> isGenerated t cfg) existing,
      removed + length (filter (\<lambda>t. isGenerated t cfg) existing))"
  by (induction existing arbitrary: filtered removed) auto

lemma labelOrEmpty_labelString: "labelString t = Some l \<Longrightarrow> labelOrEmpty t = l"
  by (simp add: labelOrEmpty_def)

lemma indexLoop_snoc:
  "indexLoop (xs @ [t]) i m =
     (case labelString t of
        Some l \<Rightarrow> (indexLoop xs i m)(l \<mapsto> i + length xs)
      | None \<Rightarrow> indexLoop xs i m)"
  by (induction xs arbitrary: i m) (auto split: option.splits)

lemma indexLoop_Some:
  "indexLoop xs 0 Map.empty l = Some j \<Longrightarrow> j < length xs \<and> labelString (xs ! j) = Some l"
proof (induction xs arbitrary: j rule: rev_induct)
  case Nil
  then show ?case by simp
next
  case (snoc t xs)
  then show ?case
    by (auto simp: indexLoop_snoc nth_append less_Suc_eq split: option.splits if_splits)
qed

lemma indexLoop_cong:
  "map labelString xs = map labelString ys \<Longrightarrow> indexLoop xs i m = indexLoop ys i m"
proof (induction xs arbitrary: ys i m)
  case Nil
  then show ?case by simp
next
  case (Cons x xs)
  then obtain y ys' where ys: "ys = y # ys'" by (cases ys) auto
  with Cons.prems have hd: "labelString x = labelString y"
    and tl: "map labelString xs = map labelString ys'" by auto
  show ?case
  proof (cases "labelString y")
    case None
    then show ?thesis using hd Cons.IH [OF tl, of "i + 1" m] by (simp add: ys)
  next
    case (Some l)
    then show ?thesis using hd Cons.IH [OF tl, of "i + 1" "m(l \<mapsto> i)"]
      by (simp add: ys fun_upd_def)
  qed
qed

lemma indexLoop_update:
  "j < length xs \<Longrightarrow> labelString t = labelString (xs ! j) \<Longrightarrow>
   indexLoop (xs[j := t]) i m = indexLoop xs i m"
  by (rule indexLoop_cong) (simp add: map_update list_update_same_conv)

lemma upsertStep_None:
  "idx (labelOrEmpty g) = None \<Longrightarrow>
   upsertStep (fs, idx) g = (fs @ [g], idx(labelOrEmpty g \<mapsto> length fs))"
  by (simp add: upsertStep_def)

lemma upsertStep_Some:
  "idx (labelOrEmpty g) = Some i \<Longrightarrow> upsertStep (fs, idx) g = (fs[i := g], idx)"
  by (simp add: upsertStep_def)

lemma upsertStep_length:
  "length (fst s) \<le> length (fst (upsertStep s t)) \<and>
   length (fst (upsertStep s t)) \<le> Suc (length (fst s))"
  by (cases s) (simp add: upsertStep_def split: option.splits)

lemma foldl_upsertStep_length:
  "length (fst s) \<le> length (fst (foldl upsertStep s G)) \<and>
   length (fst (foldl upsertStep s G)) \<le> length (fst s) + length G"
proof (induction G arbitrary: s)
  case Nil
  show ?case by simp
next
  case (Cons g G)
  show ?case
    using upsertStep_length [of s g] Cons.IH [of "upsertStep s g"] by simp
qed

lemma upsertLoop_foldl_aux:
  "fst (upsertLoop G (fst s) (snd s) a u) = fst (foldl upsertStep s G) \<and>
   fst (snd (upsertLoop G (fst s) (snd s) a u)) + length (fst s) =
     a + length (fst (foldl upsertStep s G)) \<and>
   snd (snd (upsertLoop G (fst s) (snd s) a u)) + length (fst (foldl upsertStep s G)) =
     u + length G + length (fst s)"
proof (induction G arbitrary: s a u)
  case Nil
  show ?case by simp
next
  case (Cons g G)
  obtain fs idx where s: "s = (fs, idx)" by (cases s)
  show ?case
  proof (cases "idx (labelOrEmpty g)")
    case None
    show ?thesis
      using Cons.IH [of "(fs @ [g], idx(labelOrEmpty g \<mapsto> length fs))" "a + 1" u]
      by (simp add: s None upsertStep_None fun_upd_def)
  next
    case (Some i)
    show ?thesis
      using Cons.IH [of "(fs[i := g], idx)" a "u + 1"]
      by (simp add: s Some upsertStep_Some)
  qed
qed

lemma upsertLoop_foldl:
  "upsertLoop G fs idx a u =
     (fst (foldl upsertStep (fs, idx) G),
      a + length (fst (foldl upsertStep (fs, idx) G)) - length fs,
      u + length G + length fs - length (fst (foldl upsertStep (fs, idx) G)))"
  using upsertLoop_foldl_aux [of G "(fs, idx)" a u]
  by (cases "upsertLoop G fs idx a u") auto


lemma indexSound_indexLoop: "indexSound (xs, indexLoop xs 0 Map.empty)"
  unfolding indexSound_def using indexLoop_Some labelOrEmpty_labelString by fastforce

lemma indexSound_upsertStep:
  assumes "indexSound s"
  shows "indexSound (upsertStep s g)"
proof -
  obtain fs idx where s: "s = (fs, idx)" by (cases s)
  show ?thesis
  proof (cases "idx (labelOrEmpty g)")
    case None
    with assms show ?thesis
      unfolding indexSound_def s
      by (auto simp: upsertStep_None nth_append less_Suc_eq)
  next
    case (Some j)
    from assms have *: "\<And>l i. idx l = Some i \<Longrightarrow> i < length fs \<and> labelOrEmpty (fs ! i) = l"
      unfolding indexSound_def s by simp
    show ?thesis
      unfolding indexSound_def
    proof (intro allI impI)
      fix l i
      assume "snd (upsertStep s g) l = Some i"
      then have il: "idx l = Some i" using Some by (simp add: s upsertStep_Some)
      from * [OF il] * [OF Some]
      show "i < length (fst (upsertStep s g)) \<and> labelOrEmpty (fst (upsertStep s g) ! i) = l"
        using Some by (auto simp: s upsertStep_Some nth_list_update)
    qed
  qed
qed

lemma indexSound_foldl: "indexSound s \<Longrightarrow> indexSound (foldl upsertStep s G)"
  by (induction G arbitrary: s) (simp_all add: indexSound_upsertStep)

text \<open>
  In every state the third loop reaches from the index the second loop built, an index
  read from \<^verbatim>\<open>labelIndex\<close> lies within \<^verbatim>\<open>filtered\<close>.
\<close>

lemma upsertLoop_index_in_range:
  assumes "snd (foldl upsertStep (filtered, indexLoop filtered 0 Map.empty) generated) label =
      Some idx"
  shows "idx < length (fst (foldl upsertStep (filtered, indexLoop filtered 0 Map.empty) generated))"
  using indexSound_foldl [OF indexSound_indexLoop, of filtered generated] assms
  unfolding indexSound_def by blast

text \<open>
  The index the second loop builds, and what the third loop does to each position of
  \<^verbatim>\<open>filtered\<close>: an index entry is never changed, a new one points at an appended entry, so
  a position of the original \<^verbatim>\<open>filtered\<close> is written exactly by the generated entries whose
  label was indexed there before the loop, and holds the last of them at the end.
\<close>

lemma lastLabelled_snoc:
  "lastLabelled (F @ [t]) i l =
     (if i < length F then lastLabelled F i l \<and> labelString t \<noteq> Some l
      else i = length F \<and> labelString t = Some l)"
  by (auto simp: lastLabelled_def nth_append)

lemma lastLabelled_less: "lastLabelled F i l \<Longrightarrow> i < length F"
  by (simp add: lastLabelled_def)

lemma indexLoop_lastLabelled:
  "indexLoop F 0 Map.empty l = Some i \<longleftrightarrow> lastLabelled F i l"
proof (induction F arbitrary: i rule: rev_induct)
  case Nil
  show ?case by (simp add: lastLabelled_def)
next
  case (snoc t F)
  show ?case
  proof (cases "labelString t")
    case None
    then show ?thesis
      using snoc.IH [of i] lastLabelled_less [of F i l]
      by (auto simp: indexLoop_snoc lastLabelled_snoc)
  next
    case (Some l')
    then show ?thesis
      using snoc.IH [of i] lastLabelled_less [of F i l]
      by (auto simp: indexLoop_snoc lastLabelled_snoc)
  qed
qed


lemma upsertStep_index_kept:
  "snd s l = Some j \<Longrightarrow> snd (upsertStep s g) l = Some j"
  by (cases s) (auto simp: upsertStep_def split: option.splits)

lemma foldl_upsertStep_index_kept:
  "snd s l = Some j \<Longrightarrow> snd (foldl upsertStep s G) l = Some j"
  by (induction G arbitrary: s) (simp_all add: upsertStep_index_kept)

lemma upsertStep_index_new:
  "snd (upsertStep s g) l = Some j \<Longrightarrow> j < length (fst s) \<Longrightarrow> snd s l = Some j"
  by (cases s) (auto simp: upsertStep_def split: option.splits if_splits)

lemma foldl_upsertStep_index_new:
  "snd (foldl upsertStep s G) l = Some j \<Longrightarrow> j < length (fst s) \<Longrightarrow> snd s l = Some j"
proof (induction G arbitrary: s)
  case Nil
  then show ?case by simp
next
  case (Cons g G)
  have "j < length (fst (upsertStep s g))"
    using Cons.prems(2) upsertStep_length [of s g] by simp
  with Cons.IH [of "upsertStep s g"] Cons.prems(1)
  have "snd (upsertStep s g) l = Some j" by simp
  then show ?case using Cons.prems(2) by (rule upsertStep_index_new)
qed

lemma foldl_upsertStep_positions:
  assumes sound: "indexSound (fs, idx)" and i: "i < length fs"
  shows "fst (foldl upsertStep (fs, idx) G) ! i =
        (if filter (\<lambda>g. idx (labelOrEmpty g) = Some i) G = [] then fs ! i
         else last (filter (\<lambda>g. idx (labelOrEmpty g) = Some i) G))"
proof (induction G rule: rev_induct)
  case Nil
  show ?case by simp
next
  case (snoc g G)
  obtain fs' idx' where s': "foldl upsertStep (fs, idx) G = (fs', idx')"
    by (cases "foldl upsertStep (fs, idx) G")
  have len: "length fs \<le> length fs'"
    using foldl_upsertStep_length [of "(fs, idx)" G] by (simp add: s')
  have IH: "fs' ! i =
        (if filter (\<lambda>g. idx (labelOrEmpty g) = Some i) G = [] then fs ! i
         else last (filter (\<lambda>g. idx (labelOrEmpty g) = Some i) G))"
    using snoc.IH by (simp add: s')
  have fold: "fst (foldl upsertStep (fs, idx) (G @ [g])) = fst (upsertStep (fs', idx') g)"
    by (simp add: s')
  show ?case
  proof (cases "idx (labelOrEmpty g) = Some i")
    case True
    have "idx' (labelOrEmpty g) = Some i"
      using foldl_upsertStep_index_kept [of "(fs, idx)" "labelOrEmpty g" i G] True
      by (simp add: s')
    then have "upsertStep (fs', idx') g = (fs'[i := g], idx')" by (rule upsertStep_Some)
    with i len True show ?thesis unfolding fold by simp
  next
    case False
    have same: "fst (upsertStep (fs', idx') g) ! i = fs' ! i"
    proof (cases "idx' (labelOrEmpty g)")
      case None
      then have "upsertStep (fs', idx') g = (fs' @ [g], idx'(labelOrEmpty g \<mapsto> length fs'))"
        by (rule upsertStep_None)
      with i len show ?thesis by (simp add: nth_append)
    next
      case (Some j)
      have "j \<noteq> i"
      proof
        assume "j = i"
        with Some have "snd (foldl upsertStep (fs, idx) G) (labelOrEmpty g) = Some i"
          by (simp add: s')
        with foldl_upsertStep_index_new [of "(fs, idx)" G "labelOrEmpty g" i] i
        have "idx (labelOrEmpty g) = Some i" by simp
        with False show False by simp
      qed
      moreover have "upsertStep (fs', idx') g = (fs'[j := g], idx')"
        using Some by (rule upsertStep_Some)
      ultimately show ?thesis by simp
    qed
    from False same IH show ?thesis unfolding fold by simp
  qed
qed

lemma subseq_filter_nth:
  "length xs \<le> length ys \<Longrightarrow> (\<forall>i<length xs. P (xs ! i) \<longrightarrow> ys ! i = xs ! i) \<Longrightarrow>
   subseq (filter P xs) ys"
proof (induction xs arbitrary: ys)
  case Nil
  show ?case by simp
next
  case (Cons x xs)
  then obtain y ys' where ys: "ys = y # ys'" by (cases ys) auto
  have tl: "subseq (filter P xs) ys'"
  proof (rule Cons.IH)
    show "length xs \<le> length ys'" using Cons.prems(1) ys by simp
    show "\<forall>i<length xs. P (xs ! i) \<longrightarrow> ys' ! i = xs ! i"
      using Cons.prems(2) ys by fastforce
  qed
  show ?case
  proof (cases "P x")
    case True
    with Cons.prems(2) ys have "y = x" by fastforce
    with True tl ys show ?thesis by simp
  next
    case False
    with tl ys show ?thesis by auto
  qed
qed

lemma mergeTasks_Inr:
  "mergeTasks (Inr existing) generated cfg =
     Inr (fst (foldl upsertStep (keptEntries cfg existing,
                 indexLoop (keptEntries cfg existing) 0 Map.empty) generated),
          \<lparr>Added = length (fst (foldl upsertStep (keptEntries cfg existing,
                      indexLoop (keptEntries cfg existing) 0 Map.empty) generated))
                    - length (keptEntries cfg existing),
           Updated = length generated + length (keptEntries cfg existing)
                    - length (fst (foldl upsertStep (keptEntries cfg existing,
                        indexLoop (keptEntries cfg existing) 0 Map.empty) generated)),
           Removed = length (filter (\<lambda>t. PruneGenerated cfg \<and> isGenerated t cfg) existing)\<rparr>)"
  by (simp add: mergeTasks_def pruneLoop_eq upsertLoop_foldl keptEntries_def)


subsection \<open>Entries the third loop leaves alone\<close>

lemma keptEntries_filter_untouched:
  "filter (\<lambda>t. \<not> isGenerated t cfg \<and> P t) (keptEntries cfg D) =
   filter (\<lambda>t. \<not> isGenerated t cfg \<and> P t) D"
  unfolding keptEntries_def filter_filter by (rule filter_cong) auto

lemma merge_positions:
  assumes "i < length (keptEntries cfg D)"
  shows "fst (foldl upsertStep
           (keptEntries cfg D, indexLoop (keptEntries cfg D) 0 Map.empty) G) ! i =
        (if overwriting (keptEntries cfg D) G i = [] then keptEntries cfg D ! i
         else last (overwriting (keptEntries cfg D) G i))"
  using foldl_upsertStep_positions [OF indexSound_indexLoop assms, of G]
  by (simp add: overwriting_def indexLoop_lastLabelled)

lemma overwriting_Nil:
  assumes "labelString (F ! i) \<notin> Some ` labelOrEmpty ` set G"
  shows "overwriting F G i = []"
  using assms by (auto simp: overwriting_def lastLabelled_def filter_empty_conv)

subsection \<open>String labels stay distinct\<close>

lemma stringLabels_append: "stringLabels (xs @ ys) = stringLabels xs @ stringLabels ys"
  by (simp add: stringLabels_def map_filter_def)

lemma stringLabels_Nil: "stringLabels [] = []"
  by (simp add: stringLabels_def map_filter_def)

lemma stringLabels_Cons:
  "stringLabels (t # ts) =
     (case labelString t of Some l \<Rightarrow> l # stringLabels ts | None \<Rightarrow> stringLabels ts)"
  by (simp add: stringLabels_def map_filter_def split: option.splits)

lemma set_stringLabels: "set (stringLabels ts) = {l. \<exists>t\<in>set ts. labelString t = Some l}"
  by (induction ts) (auto simp: stringLabels_Cons stringLabels_def map_filter_def split: option.splits)

lemma labelsAgree_indexLoop:
  "distinct (stringLabels xs) \<Longrightarrow> labelsAgree (xs, indexLoop xs 0 Map.empty)"
proof (induction xs rule: rev_induct)
  case Nil
  show ?case by (simp add: labelsAgree_def)
next
  case (snoc t xs)
  from snoc.prems have dist: "distinct (stringLabels xs)"
    by (simp add: stringLabels_append)
  from snoc.IH [OF dist] have IH:
    "\<And>j l. j < length xs \<Longrightarrow> labelString (xs ! j) = Some l \<Longrightarrow> indexLoop xs 0 Map.empty l = Some j"
    by (simp add: labelsAgree_def)
  show ?case
  proof (cases "labelString t")
    case None
    with IH show ?thesis
      by (auto simp: labelsAgree_def indexLoop_snoc nth_append less_Suc_eq)
  next
    case (Some l)
    with snoc.prems have "l \<notin> set (stringLabels xs)"
      by (simp add: stringLabels_append stringLabels_Cons stringLabels_Nil)
    then have fresh: "\<And>j. j < length xs \<Longrightarrow> labelString (xs ! j) \<noteq> Some l"
      by (auto simp: set_stringLabels)
    with IH Some show ?thesis
      by (auto simp: labelsAgree_def indexLoop_snoc nth_append less_Suc_eq)
  qed
qed

lemma labelsAgree_upsertStep:
  assumes "labelsAgree s"
  shows "labelsAgree (upsertStep s g)"
proof -
  obtain fs idx where s: "s = (fs, idx)" by (cases s)
  from assms have *: "\<And>j l. j < length fs \<Longrightarrow> labelString (fs ! j) = Some l \<Longrightarrow> idx l = Some j"
    by (simp add: labelsAgree_def s)
  show ?thesis
  proof (cases "idx (labelOrEmpty g)")
    case None
    then have step: "upsertStep s g = (fs @ [g], idx(labelOrEmpty g \<mapsto> length fs))"
      by (simp add: s upsertStep_None)
    show ?thesis
      unfolding labelsAgree_def
    proof (intro allI impI)
      fix j l
      assume j: "j < length (fst (upsertStep s g))"
        and l: "labelString (fst (upsertStep s g) ! j) = Some l"
      show "snd (upsertStep s g) l = Some j"
      proof (cases "j < length fs")
        case True
        with l have "labelString (fs ! j) = Some l"
          by (simp add: step nth_append)
        from * [OF True this] None show ?thesis
          by (auto simp: step)
      next
        case False
        with j have "j = length fs" by (simp add: step)
        with l have "labelString g = Some l" by (simp add: step)
        then have "labelOrEmpty g = l" by (rule labelOrEmpty_labelString)
        with \<open>j = length fs\<close> show ?thesis by (simp add: step)
      qed
    qed
  next
    case (Some i)
    then have step: "upsertStep s g = (fs[i := g], idx)"
      by (simp add: s upsertStep_Some)
    show ?thesis
      unfolding labelsAgree_def
    proof (intro allI impI)
      fix j l
      assume j: "j < length (fst (upsertStep s g))"
        and l: "labelString (fst (upsertStep s g) ! j) = Some l"
      from j have jlen: "j < length fs" by (simp add: step)
      show "snd (upsertStep s g) l = Some j"
      proof (cases "j = i")
        case True
        with l jlen have "labelString g = Some l" by (simp add: step)
        then have "labelOrEmpty g = l" by (rule labelOrEmpty_labelString)
        with Some True show ?thesis by (simp add: step)
      next
        case False
        with l have "labelString (fs ! j) = Some l" by (simp add: step)
        from * [OF jlen this] show ?thesis by (simp add: step)
      qed
    qed
  qed
qed

lemma labelsAgree_foldl: "labelsAgree s \<Longrightarrow> labelsAgree (foldl upsertStep s G)"
  by (induction G arbitrary: s) (simp_all add: labelsAgree_upsertStep)

lemma labelsAgree_distinct:
  "(\<forall>j<length ts. \<forall>l. labelString (ts ! j) = Some l \<longrightarrow> idx l = Some j) \<Longrightarrow>
   distinct (stringLabels ts)"
proof (induction ts rule: rev_induct)
  case Nil
  show ?case by (simp add: stringLabels_Nil)
next
  case (snoc t ts)
  have prefix: "\<forall>j<length ts. \<forall>l. labelString (ts ! j) = Some l \<longrightarrow> idx l = Some j"
    using snoc.prems by (auto simp: nth_append less_Suc_eq)
  have dist: "distinct (stringLabels ts)" by (rule snoc.IH [OF prefix])
  show ?case
  proof (cases "labelString t")
    case None
    with dist show ?thesis by (simp add: stringLabels_append stringLabels_Cons stringLabels_Nil)
  next
    case (Some l)
    from snoc.prems Some have last: "idx l = Some (length ts)" by auto
    have "l \<notin> set (stringLabels ts)"
    proof
      assume "l \<in> set (stringLabels ts)"
      then obtain j where "j < length ts" "labelString (ts ! j) = Some l"
        by (auto simp: set_stringLabels in_set_conv_nth)
      with prefix last show False by auto
    qed
    with dist Some show ?thesis
      by (simp add: stringLabels_append stringLabels_Cons stringLabels_Nil)
  qed
qed

subsection \<open>Merging a second time\<close>

lemma indexExact_sound: "indexExact s \<Longrightarrow> indexSound s"
  using indexSound_indexLoop [of "fst s"] by (cases s) (simp add: indexExact_def)

lemma indexExact_upsertStep:
  assumes "indexExact s" and "labelString g = Some l"
  shows "indexExact (upsertStep s g)"
proof -
  obtain fs idx where s: "s = (fs, idx)" by (cases s)
  from assms(1) have idx: "idx = indexLoop fs 0 Map.empty" by (simp add: indexExact_def s)
  from assms(2) have l: "labelOrEmpty g = l" by (rule labelOrEmpty_labelString)
  show ?thesis
  proof (cases "idx l")
    case None
    then have "upsertStep s g = (fs @ [g], idx(l \<mapsto> length fs))"
      by (simp add: s l upsertStep_None)
    then show ?thesis
      using assms(2) by (simp add: indexExact_def indexLoop_snoc idx)
  next
    case (Some i)
    then have step: "upsertStep s g = (fs[i := g], idx)"
      by (simp add: s l upsertStep_Some)
    from Some have "i < length fs" "labelString (fs ! i) = Some l"
      using indexLoop_Some [of fs l i] by (simp_all add: idx)
    then have "indexLoop (fs[i := g]) 0 Map.empty = indexLoop fs 0 Map.empty"
      using assms(2) by (intro indexLoop_update) simp_all
    then show ?thesis by (simp add: step indexExact_def idx)
  qed
qed

lemma indexExact_foldl:
  "indexExact s \<Longrightarrow> \<forall>g\<in>set G. labelString g \<noteq> None \<Longrightarrow> indexExact (foldl upsertStep s G)"
proof (induction G arbitrary: s)
  case Nil
  then show ?case by simp
next
  case (Cons g G)
  then obtain l where "labelString g = Some l" by auto
  with Cons.prems(1) have "indexExact (upsertStep s g)" by (rule indexExact_upsertStep)
  with Cons show ?case by simp
qed

text \<open>After the loop, each generated label is indexed at the last generated entry with that label.\<close>

lemma foldl_upsertStep_saturated:
  assumes "indexSound s"
  shows "\<forall>g\<in>set G. \<exists>i. snd (foldl upsertStep s G) (labelOrEmpty g) = Some i \<and>
           fst (foldl upsertStep s G) ! i = last (filter (\<lambda>h. labelOrEmpty h = labelOrEmpty g) G)"
proof (induction G rule: rev_induct)
  case Nil
  show ?case by simp
next
  case (snoc g G)
  obtain fs idx where s': "foldl upsertStep s G = (fs, idx)" by (cases "foldl upsertStep s G")
  have sound: "indexSound (fs, idx)"
    using indexSound_foldl [OF assms, of G] by (simp add: s')
  then have inj: "\<And>l i. idx l = Some i \<Longrightarrow> i < length fs \<and> labelOrEmpty (fs ! i) = l"
    by (simp add: indexSound_def)
  from snoc.IH have IH: "\<And>h. h \<in> set G \<Longrightarrow> \<exists>i. idx (labelOrEmpty h) = Some i \<and>
      fs ! i = last (filter (\<lambda>k. labelOrEmpty k = labelOrEmpty h) G)"
    by (simp add: s')
  show ?case
  proof (cases "idx (labelOrEmpty g)")
    case None
    then have step: "upsertStep (fs, idx) g = (fs @ [g], idx(labelOrEmpty g \<mapsto> length fs))"
      by (simp add: upsertStep_None)
    show ?thesis
    proof
      fix h assume "h \<in> set (G @ [g])"
      show "\<exists>i. snd (foldl upsertStep s (G @ [g])) (labelOrEmpty h) = Some i \<and>
           fst (foldl upsertStep s (G @ [g])) ! i =
             last (filter (\<lambda>k. labelOrEmpty k = labelOrEmpty h) (G @ [g]))"
      proof (cases "labelOrEmpty h = labelOrEmpty g")
        case True
        then show ?thesis by (simp add: s' step)
      next
        case False
        with \<open>h \<in> set (G @ [g])\<close> have "h \<in> set G" by auto
        from IH [OF this] obtain i where i: "idx (labelOrEmpty h) = Some i"
          "fs ! i = last (filter (\<lambda>k. labelOrEmpty k = labelOrEmpty h) G)" by blast
        from inj [OF i(1)] have "i < length fs" by simp
        with i False show ?thesis by (simp add: s' step nth_append)
      qed
    qed
  next
    case (Some j)
    then have step: "upsertStep (fs, idx) g = (fs[j := g], idx)"
      by (simp add: upsertStep_Some)
    from inj [OF Some] have j: "j < length fs" "labelOrEmpty (fs ! j) = labelOrEmpty g" by simp_all
    show ?thesis
    proof
      fix h assume "h \<in> set (G @ [g])"
      show "\<exists>i. snd (foldl upsertStep s (G @ [g])) (labelOrEmpty h) = Some i \<and>
           fst (foldl upsertStep s (G @ [g])) ! i =
             last (filter (\<lambda>k. labelOrEmpty k = labelOrEmpty h) (G @ [g]))"
      proof (cases "labelOrEmpty h = labelOrEmpty g")
        case True
        with Some j show ?thesis by (simp add: s' step)
      next
        case False
        with \<open>h \<in> set (G @ [g])\<close> have "h \<in> set G" by auto
        from IH [OF this] obtain i where i: "idx (labelOrEmpty h) = Some i"
          "fs ! i = last (filter (\<lambda>k. labelOrEmpty k = labelOrEmpty h) G)" by blast
        from inj [OF i(1)] j False have "i \<noteq> j" by auto
        with i False show ?thesis by (simp add: s' step)
      qed
    qed
  qed
qed

text \<open>A run in which every label is already indexed only overwrites, position by position.\<close>

lemma foldl_upsertStep_overwrite:
  assumes "\<forall>g\<in>set G. idx (labelOrEmpty g) \<noteq> None"
  shows "snd (foldl upsertStep (M, idx) G) = idx \<and>
         length (fst (foldl upsertStep (M, idx) G)) = length M \<and>
         (\<forall>i<length M. fst (foldl upsertStep (M, idx) G) ! i =
            (if filter (\<lambda>g. idx (labelOrEmpty g) = Some i) G = [] then M ! i
             else last (filter (\<lambda>g. idx (labelOrEmpty g) = Some i) G)))"
  using assms
proof (induction G rule: rev_induct)
  case Nil
  show ?case by simp
next
  case (snoc g G)
  obtain fs where s': "foldl upsertStep (M, idx) G = (fs, idx)"
    using snoc by (cases "foldl upsertStep (M, idx) G") auto
  from snoc.prems obtain j where j: "idx (labelOrEmpty g) = Some j" by auto
  then have step: "upsertStep (fs, idx) g = (fs[j := g], idx)"
    by (simp add: upsertStep_Some)
  from snoc have IH: "length fs = length M"
    "\<And>i. i < length M \<Longrightarrow> fs ! i =
        (if filter (\<lambda>g. idx (labelOrEmpty g) = Some i) G = [] then M ! i
         else last (filter (\<lambda>g. idx (labelOrEmpty g) = Some i) G))"
    by (simp_all add: s')
  show ?case
    using IH j by (auto simp: s' step nth_list_update)
qed

lemma foldl_upsertStep_fixpoint:
  assumes sound: "indexSound (M, idx)"
    and sat: "\<forall>g\<in>set G. \<exists>i. idx (labelOrEmpty g) = Some i \<and>
           M ! i = last (filter (\<lambda>h. labelOrEmpty h = labelOrEmpty g) G)"
  shows "fst (foldl upsertStep (M, idx) G) = M"
proof -
  from sat have dom: "\<forall>g\<in>set G. idx (labelOrEmpty g) \<noteq> None" by auto
  note ow = foldl_upsertStep_overwrite [OF dom, of M]
  show ?thesis
  proof (rule nth_equalityI)
    show "length (fst (foldl upsertStep (M, idx) G)) = length M" using ow by simp
  next
    fix i assume "i < length (fst (foldl upsertStep (M, idx) G))"
    then have i: "i < length M" using ow by simp
    let ?hits = "filter (\<lambda>g. idx (labelOrEmpty g) = Some i) G"
    show "fst (foldl upsertStep (M, idx) G) ! i = M ! i"
    proof (cases "?hits = []")
      case True
      with ow i show ?thesis by simp
    next
      case False
      then have "last ?hits \<in> set ?hits" by (rule last_in_set)
      then have g: "last ?hits \<in> set G" "idx (labelOrEmpty (last ?hits)) = Some i" by auto
      from sat g obtain i' where i': "idx (labelOrEmpty (last ?hits)) = Some i'"
        "M ! i' = last (filter (\<lambda>h. labelOrEmpty h = labelOrEmpty (last ?hits)) G)" by blast
      with g have "i' = i" by simp
      have same: "filter (\<lambda>h. labelOrEmpty h = labelOrEmpty (last ?hits)) G = ?hits"
      proof (rule filter_cong [OF refl])
        fix h assume "h \<in> set G"
        from sound have "\<And>l k. idx l = Some k \<Longrightarrow> labelOrEmpty (M ! k) = l"
          by (simp add: indexSound_def)
        with g(2) show "(labelOrEmpty h = labelOrEmpty (last ?hits)) = (idx (labelOrEmpty h) = Some i)"
          by metis
      qed
      from ow i False have "fst (foldl upsertStep (M, idx) G) ! i = last ?hits" by simp
      with i' \<open>i' = i\<close> same show ?thesis by simp
    qed
  qed
qed

lemma filter_update_irrelevant:
  "j < length xs \<Longrightarrow> \<not> P (xs ! j) \<Longrightarrow> \<not> P y \<Longrightarrow> filter P (xs[j := y]) = filter P xs"
proof (induction xs arbitrary: j)
  case Nil
  then show ?case by simp
next
  case (Cons x xs)
  then show ?case by (cases j) auto
qed

lemma foldl_upsertStep_user_entries:
  assumes "indexSound s"
    and "\<forall>g\<in>set G. isGenerated g cfg"
    and "\<forall>t\<in>set (fst s). \<not> isGenerated t cfg \<longrightarrow> labelOrEmpty t \<notin> L"
    and "labelOrEmpty ` set G \<subseteq> L"
  shows "filter (\<lambda>t. \<not> isGenerated t cfg) (fst (foldl upsertStep s G)) =
         filter (\<lambda>t. \<not> isGenerated t cfg) (fst s)"
  using assms
proof (induction G arbitrary: s)
  case Nil
  show ?case by simp
next
  case (Cons g G)
  obtain fs idx where s: "s = (fs, idx)" by (cases s)
  from Cons.prems(1) have inj: "\<And>l i. idx l = Some i \<Longrightarrow> i < length fs \<and> labelOrEmpty (fs ! i) = l"
    by (simp add: indexSound_def s)
  from Cons.prems(2) have gen: "isGenerated g cfg" by simp
  from Cons.prems(4) have inL: "labelOrEmpty g \<in> L" by auto
  have step: "filter (\<lambda>t. \<not> isGenerated t cfg) (fst (upsertStep s g)) =
      filter (\<lambda>t. \<not> isGenerated t cfg) fs"
  proof (cases "idx (labelOrEmpty g)")
    case None
    with gen show ?thesis by (simp add: s upsertStep_None)
  next
    case (Some j)
    from inj [OF Some] have j: "j < length fs" "labelOrEmpty (fs ! j) = labelOrEmpty g" by simp_all
    with Cons.prems(3) inL have "isGenerated (fs ! j) cfg"
      by (auto simp: s)
    with j gen have "filter (\<lambda>t. \<not> isGenerated t cfg) (fs[j := g]) =
        filter (\<lambda>t. \<not> isGenerated t cfg) fs"
      by (intro filter_update_irrelevant) simp_all
    with Some show ?thesis by (simp add: s upsertStep_Some)
  qed
  have "filter (\<lambda>t. \<not> isGenerated t cfg) (fst (foldl upsertStep (upsertStep s g) G)) =
      filter (\<lambda>t. \<not> isGenerated t cfg) (fst (upsertStep s g))"
  proof (rule Cons.IH)
    show "indexSound (upsertStep s g)" using Cons.prems(1) by (rule indexSound_upsertStep)
    show "\<forall>g\<in>set G. isGenerated g cfg" using Cons.prems(2) by simp
    show "labelOrEmpty ` set G \<subseteq> L" using Cons.prems(4) by auto
    show "\<forall>t\<in>set (fst (upsertStep s g)). \<not> isGenerated t cfg \<longrightarrow> labelOrEmpty t \<notin> L"
    proof (intro ballI impI)
      fix t assume "t \<in> set (fst (upsertStep s g))" "\<not> isGenerated t cfg"
      then have "t \<in> set (filter (\<lambda>t. \<not> isGenerated t cfg) (fst (upsertStep s g)))" by simp
      then have "t \<in> set fs" unfolding step by simp
      with Cons.prems(3) \<open>\<not> isGenerated t cfg\<close> show "labelOrEmpty t \<notin> L" by (simp add: s)
    qed
  qed
  with step show ?case by (simp add: s)
qed

lemma keptEntries_no_prune: "\<not> PruneGenerated cfg \<Longrightarrow> keptEntries cfg D = D"
  by (simp add: keptEntries_def)

lemma keptEntries_prune:
  "PruneGenerated cfg \<Longrightarrow> keptEntries cfg D = filter (\<lambda>t. \<not> isGenerated t cfg) D"
  by (simp add: keptEntries_def)

lemma merge_again_no_prune:
  assumes lab: "\<forall>g\<in>set G. labelString g \<noteq> None"
    and M: "M = fst (foldl upsertStep (D, indexLoop D 0 Map.empty) G)"
  shows "fst (foldl upsertStep (M, indexLoop M 0 Map.empty) G) = M"
proof -
  let ?s = "foldl upsertStep (D, indexLoop D 0 Map.empty) G"
  have exact0: "indexExact (D, indexLoop D 0 Map.empty)" by (simp add: indexExact_def)
  from indexExact_foldl [OF exact0 lab] have idx: "snd ?s = indexLoop M 0 Map.empty"
    by (simp add: indexExact_def M)
  have sat: "\<forall>g\<in>set G. \<exists>i. snd ?s (labelOrEmpty g) = Some i \<and>
           fst ?s ! i = last (filter (\<lambda>h. labelOrEmpty h = labelOrEmpty g) G)"
    by (rule foldl_upsertStep_saturated) (rule indexSound_indexLoop)
  show ?thesis
  proof (rule foldl_upsertStep_fixpoint)
    show "indexSound (M, indexLoop M 0 Map.empty)" by (rule indexSound_indexLoop)
    show "\<forall>g\<in>set G. \<exists>i. indexLoop M 0 Map.empty (labelOrEmpty g) = Some i \<and>
           M ! i = last (filter (\<lambda>h. labelOrEmpty h = labelOrEmpty g) G)"
      using sat by (simp add: idx M [symmetric])
  qed
qed

lemma merge_keeps_user_entries:
  assumes gen: "\<forall>g\<in>set G. isGenerated g cfg"
    and free: "\<forall>t\<in>set D. \<not> isGenerated t cfg \<longrightarrow> labelOrEmpty t \<notin> labelOrEmpty ` set G"
    and F: "F = filter (\<lambda>t. \<not> isGenerated t cfg) D"
  shows "filter (\<lambda>t. \<not> isGenerated t cfg) (fst (foldl upsertStep (F, indexLoop F 0 Map.empty) G)) = F"
proof -
  have "filter (\<lambda>t. \<not> isGenerated t cfg) (fst (foldl upsertStep (F, indexLoop F 0 Map.empty) G)) =
      filter (\<lambda>t. \<not> isGenerated t cfg) (fst (F, indexLoop F 0 Map.empty))"
  proof (rule foldl_upsertStep_user_entries [where L = "labelOrEmpty ` set G"])
    show "indexSound (F, indexLoop F 0 Map.empty)" by (rule indexSound_indexLoop)
    show "\<forall>g\<in>set G. isGenerated g cfg" by (rule gen)
    show "\<forall>t\<in>set (fst (F, indexLoop F 0 Map.empty)).
        \<not> isGenerated t cfg \<longrightarrow> labelOrEmpty t \<notin> labelOrEmpty ` set G"
      using free by (simp add: F)
    show "labelOrEmpty ` set G \<subseteq> labelOrEmpty ` set G" by simp
  qed
  then show ?thesis by (simp add: F)
qed

lemmas example_entries = generatedAlpha_def generatedOld_def userBuild_def userAlpha_def

lemmas merge_eval = mergeTasks_def isGenerated_def labelString_def labelOrEmpty_def
  defaultConfig_def

section \<open>Properties of the selection\<close>

lemma set_intersectTests: "set (intersectTests fileTests listed) = set fileTests \<inter> listed"
  by (auto simp: intersectTests_def)

lemma appendUnseen_set:
  "seen = set merged \<Longrightarrow>
   fst (appendUnseen names (seen, merged)) = set (snd (appendUnseen names (seen, merged))) \<and>
   set (snd (appendUnseen names (seen, merged))) = set merged \<union> set names"
proof (induction names arbitrary: seen merged)
  case Nil
  then show ?case by simp
next
  case (Cons n names)
  show ?case
  proof (cases "n \<in> seen")
    case True
    with Cons.IH [of seen merged] Cons.prems show ?thesis by auto
  next
    case False
    with Cons.IH [of "insert n seen" "merged @ [n]"] Cons.prems show ?thesis by auto
  qed
qed

lemma set_mergeUniqueTests: "set (mergeUniqueTests base extra) = set base \<union> set extra"
proof -
  obtain seen merged where b: "appendUnseen base ({}, []) = (seen, merged)"
    by (cases "appendUnseen base ({}, [])")
  from appendUnseen_set [of "{}" "[]" base] b have "seen = set merged" "set merged = set base"
    by simp_all
  with appendUnseen_set [of seen merged extra] show ?thesis
    by (simp add: mergeUniqueTests_def b)
qed

lemma distinct_runEventsLoop:
  "distinct seen \<Longrightarrow> distinct (runEventsLoop unmarshal lines seen)"
  by (induction lines arbitrary: seen) (auto split: option.splits)

lemma runEventsLoop_Cons:
  "runEventsLoop unmarshal (line # lines) seen =
     (case runEventName unmarshal line of
        None \<Rightarrow> runEventsLoop unmarshal lines seen
      | Some name \<Rightarrow> runEventsLoop unmarshal lines (List.insert name seen))"
  by (simp add: runEventName_def split: option.splits)

lemma set_runEventsLoop_names:
  "set (runEventsLoop unmarshal lines seen) =
     set seen \<union> {name. \<exists>line\<in>set lines. runEventName unmarshal line = Some name}"
proof (induction lines arbitrary: seen)
  case Nil
  show ?case by simp
next
  case (Cons line lines)
  show ?case
    unfolding runEventsLoop_Cons
    by (cases "runEventName unmarshal line") (auto simp: Cons.IH)
qed

lemma runEventName_Some:
  "runEventName unmarshal line = Some name \<longleftrightarrow>
     (\<exists>ev. TrimSpace line \<noteq> [] \<and> unmarshal (TrimSpace line) = Some ev \<and>
           Action ev = ''run'' \<and> Test ev \<noteq> [] \<and> name = Test ev)"
  by (auto simp: runEventName_def split: option.splits)

lemma set_runEventsLoop:
  "set (runEventsLoop unmarshal lines seen) =
     set seen \<union> {Test ev | ev line. line \<in> set lines \<and> TrimSpace line \<noteq> [] \<and>
        unmarshal (TrimSpace line) = Some ev \<and> Action ev = ''run'' \<and> Test ev \<noteq> []}"
  unfolding set_runEventsLoop_names runEventName_Some by blast

lemma sort_eq_Nil: "sort xs = [] \<longleftrightarrow> xs = []"
  by (metis length_0_conv length_sort)

lemma scanLines_err: "snd (scanLines data token) = Some e \<Longrightarrow> e = ScannerTokenTooLong"
  by (induction data token rule: scanLines.induct) (auto split: if_splits prod.splits)

lemma scanLines_too_long:
  "c \<noteq> CHR 0x0A \<Longrightarrow> length token < MaxScanTokenSize \<Longrightarrow>
   MaxScanTokenSize \<le> length token + n \<Longrightarrow>
   scanLines (replicate n c) token = ([], Some ScannerTokenTooLong)"
proof (induction n arbitrary: token)
  case 0
  then show ?case by simp
next
  case (Suc n)
  show ?case
  proof (cases "MaxScanTokenSize \<le> length token + 1")
    case True
    with Suc.prems(1) show ?thesis by simp
  next
    case False
    with Suc.prems Suc.IH [of "token @ [c]"] show ?thesis by simp
  qed
qed

lemma scanLines_line:
  "\<forall>c\<in>set line. c \<noteq> CHR 0x0A \<Longrightarrow> length token + length line < MaxScanTokenSize \<Longrightarrow>
   scanLines (line @ CHR 0x0A # rest) token =
     (dropCR (token @ line) # fst (scanLines rest []), snd (scanLines rest []))"
proof (induction line arbitrary: token)
  case Nil
  then show ?case by (simp split: prod.splits)
next
  case (Cons c line)
  from Cons.prems Cons.IH [of "token @ [c]"] show ?case by simp
qed

subsection \<open>Evaluating the library functions\<close>

lemma unicodeSpaces_all:
  "\<forall>w\<in>set unicodeSpaces.
     w \<noteq> [] \<and> (of_char (hd w) :: nat) \<ge> 128 \<and> (of_char (last w) :: nat) \<ge> 128"
  by (simp add: unicodeSpaces_def)

lemma unicodeSpaces_bytes:
  "w \<in> set unicodeSpaces \<Longrightarrow>
   w \<noteq> [] \<and> (of_char (hd w) :: nat) \<ge> 128 \<and> (of_char (last w) :: nat) \<ge> 128"
  using unicodeSpaces_all by blast

lemma spaceWidthFront_ascii:
  assumes "s \<noteq> []" and "\<not> asciiSpace (hd s)" and "(of_char (hd s) :: nat) < 128"
  shows "spaceWidthFront s = 0"
proof -
  have "find (\<lambda>w. prefix w s) unicodeSpaces = None"
    unfolding find_None_iff
  proof (intro notI)
    assume "\<exists>w. w \<in> set unicodeSpaces \<and> prefix w s"
    then obtain w where w: "w \<in> set unicodeSpaces" "prefix w s" by blast
    from unicodeSpaces_bytes [OF w(1)] have "w \<noteq> []" "(of_char (hd w) :: nat) \<ge> 128"
      by simp_all
    moreover from w(2) \<open>w \<noteq> []\<close> have "hd s = hd w"
      by (auto simp: prefix_def)
    ultimately show False using assms(3) by simp
  qed
  with assms(1,2) show ?thesis
    by (cases s) (simp_all add: spaceWidthFront_def)
qed

lemma spaceWidthBack_ascii:
  "s \<noteq> [] \<Longrightarrow> \<not> asciiSpace (last s) \<Longrightarrow> (of_char (last s) :: nat) < 128 \<Longrightarrow> spaceWidthBack s = 0"
proof -
  assume s: "s \<noteq> []" and ns: "\<not> asciiSpace (last s)" and a: "(of_char (last s) :: nat) < 128"
  have "find (\<lambda>w. suffix w s) unicodeSpaces = None"
    unfolding find_None_iff
  proof (intro notI)
    assume "\<exists>w. w \<in> set unicodeSpaces \<and> suffix w s"
    then obtain w where w: "w \<in> set unicodeSpaces" "suffix w s" by blast
    from unicodeSpaces_bytes [OF w(1)] have "w \<noteq> []" "(of_char (last w) :: nat) \<ge> 128"
      by simp_all
    moreover from w(2) \<open>w \<noteq> []\<close> have "last s = last w"
      by (auto simp: suffix_def)
    ultimately show False using a by simp
  qed
  with s ns show ?thesis
    by (cases "rev s") (auto simp: spaceWidthBack_def last_rev hd_rev)
qed

lemma TrimSpace_id:
  "s \<noteq> [] \<Longrightarrow> \<not> asciiSpace (hd s) \<Longrightarrow> (of_char (hd s) :: nat) < 128 \<Longrightarrow>
   \<not> asciiSpace (last s) \<Longrightarrow> (of_char (last s) :: nat) < 128 \<Longrightarrow> TrimSpace s = s"
  by (simp add: TrimSpace_def trimLeftSpace.simps [of s] trimRightSpace.simps [of s]
      spaceWidthFront_ascii spaceWidthBack_ascii)

lemma TrimSpace_eventLine: "TrimSpace (eventLine a t) = eventLine a t"
  by (rule TrimSpace_id) (simp_all add: eventLine_def asciiSpace_def)

lemma scanLines_all_lines:
  "\<forall>l\<in>set ls. (\<forall>c\<in>set l. c \<noteq> CHR 0x0A) \<and> length l < MaxScanTokenSize \<Longrightarrow>
   scanLines (concat (map (\<lambda>l. l @ [CHR 0x0A]) ls)) [] = (map dropCR ls, None)"
proof (induction ls)
  case Nil
  show ?case by simp
next
  case (Cons l ls)
  from Cons.prems have nl: "\<forall>c\<in>set l. c \<noteq> CHR 0x0A"
    and len: "length ([]::string) + length l < MaxScanTokenSize" by simp_all
  from Cons have rest: "scanLines (concat (map (\<lambda>l. l @ [CHR 0x0A]) ls)) [] = (map dropCR ls, None)"
    by simp
  show ?case
    using scanLines_line [OF nl len, of "concat (map (\<lambda>l. l @ [CHR 0x0A]) ls)"] rest
    by simp
qed

lemma dropCR_eventLine: "dropCR (eventLine a t) = eventLine a t"
  by (simp add: dropCR_def eventLine_def)

lemma exampleOutput_lines:
  "scanLines exampleOutput [] =
     ([eventLine ''run'' ''TestAlpha'', eventLine ''run'' ''TestAlpha/case1'', ''not json'',
       eventLine ''fail'' ''TestAlpha''], None)"
proof -
  let ?ls = "[eventLine ''run'' ''TestAlpha'', eventLine ''run'' ''TestAlpha/case1'', ''not json'',
       eventLine ''fail'' ''TestAlpha'']"
  have eq: "concat (map (\<lambda>l. l @ [CHR 0x0A]) ?ls) = exampleOutput"
    by (simp add: exampleOutput_def)
  have ok: "\<forall>l\<in>set ?ls. (\<forall>c\<in>set l. c \<noteq> CHR 0x0A) \<and> length l < MaxScanTokenSize"
    by (simp add: eventLine_def MaxScanTokenSize_def)
  have cr: "dropCR ''not json'' = ''not json''"
    by (simp add: dropCR_def)
  from scanLines_all_lines [OF ok] have "scanLines exampleOutput [] = (map dropCR ?ls, None)"
    unfolding eq .
  then show ?thesis
    by (simp add: dropCR_eventLine cr)
qed

lemma exampleOutput_names:
  "runEventsLoop unmarshalExample
     [eventLine ''run'' ''TestAlpha'', eventLine ''run'' ''TestAlpha/case1'', ''not json'',
       eventLine ''fail'' ''TestAlpha''] [] = [''TestAlpha/case1'', ''TestAlpha'']"
proof -
  have 1: "runEventName unmarshalExample (eventLine ''run'' ''TestAlpha'') = Some ''TestAlpha''"
    by (simp add: runEventName_def TrimSpace_eventLine) (simp add: unmarshalExample_def eventLine_def)
  have 2: "runEventName unmarshalExample (eventLine ''run'' ''TestAlpha/case1'') = Some ''TestAlpha/case1''"
    by (simp add: runEventName_def TrimSpace_eventLine) (simp add: unmarshalExample_def eventLine_def)
  have "TrimSpace ''not json'' = ''not json''"
    by (rule TrimSpace_id) (simp_all add: asciiSpace_def)
  then have 3: "runEventName unmarshalExample ''not json'' = None"
    by (simp add: runEventName_def) (simp add: unmarshalExample_def eventLine_def)
  have 4: "runEventName unmarshalExample (eventLine ''fail'' ''TestAlpha'') = None"
    by (simp add: runEventName_def TrimSpace_eventLine) (simp add: unmarshalExample_def eventLine_def)
  show ?thesis
    by (simp only: runEventsLoop_Cons 1 2 3 4 option.case runEventsLoop.simps) simp
qed

lemma exampleOutput_discovered:
  "discoverSubtestsWithGo unmarshalExample [''TestAlpha''] (exampleOutput, failed) =
     Inr [''TestAlpha'', ''TestAlpha/case1'']"
  by (simp add: discoverSubtestsWithGo_def parseRunEventsFromGoTestJSON_def
      exampleOutput_lines exampleOutput_names del: runEventsLoop.simps)

lemma exampleOutput_selected:
  "selectedTests True (Inr 30) unmarshalExample (exampleOutput, False)
       [''TestAlpha'', ''TestBeta''] {''TestAlpha''} =
     Inr [''TestAlpha'', ''TestAlpha/case1'']"
proof -
  have "sort (intersectTests [''TestAlpha'', ''TestBeta''] {''TestAlpha''}) = [''TestAlpha'']"
    by (simp add: intersectTests_def)
  moreover have "sort (mergeUniqueTests [''TestAlpha''] [''TestAlpha'', ''TestAlpha/case1'']) =
      [''TestAlpha'', ''TestAlpha/case1'']"
    by (simp add: mergeUniqueTests_def)
  ultimately show ?thesis
    by (simp add: selectedTests_def exampleOutput_discovered)
qed

lemma exampleFirstLine_names: "parseRunEventsFromGoTestJSON unmarshalExample (eventLine ''run'' ''TestAlpha'' @ [CHR 0x0A]) = Inr [''TestAlpha'']"
proof -
  have nl: "\<forall>c\<in>set (eventLine ''run'' ''TestAlpha''). c \<noteq> CHR 0x0A"
    by (simp add: eventLine_def)
  have len: "length ([]::string) + length (eventLine ''run'' ''TestAlpha'') < MaxScanTokenSize"
    by (simp add: eventLine_def MaxScanTokenSize_def)
  have 1: "runEventName unmarshalExample (eventLine ''run'' ''TestAlpha'') = Some ''TestAlpha''"
    by (simp add: runEventName_def TrimSpace_eventLine) (simp add: unmarshalExample_def eventLine_def)
  show ?thesis
    using scanLines_line [OF nl len, of "[]"]
    by (simp add: parseRunEventsFromGoTestJSON_def dropCR_eventLine runEventsLoop_Cons 1
        del: runEventsLoop.simps(2))
qed

lemma exampleTooLong: "discoverSubtestsWithGo unmarshalExample [''TestAlpha'']
     (eventLine ''run'' ''TestAlpha'' @ CHR 0x0A # replicate 65536 (CHR ''x''), False) = Inl ScannerTokenTooLong"
proof -
  have nl: "\<forall>c\<in>set (eventLine ''run'' ''TestAlpha''). c \<noteq> CHR 0x0A"
    by (simp add: eventLine_def)
  have len: "length ([]::string) + length (eventLine ''run'' ''TestAlpha'') < MaxScanTokenSize"
    by (simp add: eventLine_def MaxScanTokenSize_def)
  have long: "scanLines (replicate 65536 (CHR ''x'')) [] = ([], Some ScannerTokenTooLong)"
    by (rule scanLines_too_long) (simp_all add: MaxScanTokenSize_def)
  show ?thesis
    using scanLines_line [OF nl len, of "replicate 65536 (CHR ''x'')"] long
    by (simp add: discoverSubtestsWithGo_def parseRunEventsFromGoTestJSON_def)
qed


section \<open>Properties of the run selector\<close>

lemma Split_not_Nil: "Split s sep \<noteq> []"
  by (induction s) (auto split: list.splits)

lemma Split_Cons:
  "Split (c # s) sep =
     (if c = sep then [] # Split s sep else (c # hd (Split s sep)) # tl (Split s sep))"
  using Split_not_Nil [of s sep] by (cases "Split s sep") simp_all

lemma Split_no_sep: "segment \<in> set (Split s sep) \<Longrightarrow> sep \<notin> set segment"
proof (induction s arbitrary: segment)
  case Nil
  then show ?case by simp
next
  case (Cons c s)
  have ne: "Split s sep \<noteq> []" by (rule Split_not_Nil)
  then have hd: "hd (Split s sep) \<in> set (Split s sep)" by simp
  have tl: "set (tl (Split s sep)) \<subseteq> set (Split s sep)"
    using ne by (cases "Split s sep") auto
  show ?case
  proof (cases "c = sep")
    case True
    with Cons.prems have "segment = [] \<or> segment \<in> set (Split s sep)"
      by (simp add: Split_Cons del: Split.simps)
    with Cons.IH show ?thesis by auto
  next
    case False
    with Cons.prems have "segment = c # hd (Split s sep) \<or> segment \<in> set (tl (Split s sep))"
      by (simp add: Split_Cons del: Split.simps)
    with Cons.IH hd tl False show ?thesis by auto
  qed
qed

lemma Join_Cons_hd_tl:
  "xs \<noteq> [] \<Longrightarrow> Join ((c # hd xs) # tl xs) sep = c # Join xs sep"
proof -
  assume "xs \<noteq> []"
  then obtain a rest where xs: "xs = a # rest" by (cases xs) auto
  show ?thesis by (cases rest) (simp_all add: xs)
qed

lemma Join_Split: "Join (Split s sep) sep = s"
proof (induction s)
  case Nil
  show ?case by simp
next
  case (Cons c s)
  have ne: "Split s sep \<noteq> []" by (rule Split_not_Nil)
  show ?case
  proof (cases "c = sep")
    case True
    with Cons ne show ?thesis
      by (cases "Split s sep") (simp_all add: Split_Cons del: Split.simps)
  next
    case False
    with Cons Join_Cons_hd_tl [OF ne] show ?thesis
      by (simp add: Split_Cons del: Split.simps)
  qed
qed

lemma Split_no_sep_id: "sep \<notin> set s \<Longrightarrow> Split s sep = [s]"
  by (induction s) auto

lemma Split_append_sep:
  "sep \<notin> set a \<Longrightarrow> Split (a @ sep # s) sep = a # Split s sep"
  by (induction a) auto

lemma Split_Join:
  "segments \<noteq> [] \<Longrightarrow> \<forall>segment\<in>set segments. sep \<notin> set segment \<Longrightarrow>
   Split (Join segments sep) sep = segments"
proof (induction segments sep rule: Join.induct)
  case (1 sep)
  then show ?case by simp
next
  case (2 a sep)
  then show ?case by (simp add: Split_no_sep_id)
next
  case (3 a b elems sep)
  then show ?case by (simp add: Split_append_sep)
qed

lemma set_QuoteMeta: "set (QuoteMeta s) \<subseteq> insert (CHR 0x5C) (set s)"
  by (induction s) (auto simp: QuoteMeta_def)

lemma unquoteLiteral_QuoteMeta: "unquoteLiteral (QuoteMeta s) = Some s"
  by (induction s) (auto simp: QuoteMeta_def special_def)

lemma segmentMatches_anchored:
  "segmentMatches (''^'' @ QuoteMeta s @ ''$'') t \<longleftrightarrow> t = s"
  by (auto simp: segmentMatches_def unquoteLiteral_QuoteMeta butlast_append)

lemma list_all2_anchored:
  "list_all2 segmentMatches (map (\<lambda>segment. ''^'' @ QuoteMeta segment @ ''$'') segments) ts \<longleftrightarrow>
   ts = segments"
proof (induction segments arbitrary: ts)
  case Nil
  show ?case by auto
next
  case (Cons s segments)
  show ?case
    by (cases ts) (auto simp: Cons.IH segmentMatches_anchored simp del: append.simps)
qed

lemma runPatternForTestName_Join:
  "runPatternForTestName testName =
     Join (map (\<lambda>segment. ''^'' @ QuoteMeta segment @ ''$'') (Split testName (CHR ''/'')))
       (CHR ''/'')"
  by (simp add: runPatternForTestName_def QuoteMeta_def)

lemma Split_runPattern:
  "Split (runPatternForTestName testName) (CHR ''/'') =
     map (\<lambda>segment. ''^'' @ QuoteMeta segment @ ''$'') (Split testName (CHR ''/''))"
  unfolding runPatternForTestName_Join
proof (rule Split_Join)
  show "map (\<lambda>segment. ''^'' @ QuoteMeta segment @ ''$'') (Split testName (CHR ''/'')) \<noteq> []"
    by (simp add: Split_not_Nil)
  show "\<forall>segment\<in>set (map (\<lambda>segment. ''^'' @ QuoteMeta segment @ ''$'')
      (Split testName (CHR ''/''))). CHR ''/'' \<notin> set segment"
  proof
    fix p
    assume "p \<in> set (map (\<lambda>segment. ''^'' @ QuoteMeta segment @ ''$'') (Split testName (CHR ''/'')))"
    then obtain s where s: "s \<in> set (Split testName (CHR ''/''))"
      and p: "p = ''^'' @ QuoteMeta s @ ''$''" by auto
    from Split_no_sep [OF s] set_QuoteMeta [of s] show "CHR ''/'' \<notin> set p"
      by (auto simp: p)
  qed
qed


text \<open>
  The entries the tool generates all carry a string label, the prefix followed by the test
  name, and, unless the marker key is configured to be one of the two other keys of
  \<^verbatim>\<open>env\<close>, the marker.
\<close>

lemma makeGeneratedTasks_labels:
  "map labelString (makeGeneratedTasks testNames pkgArg relFilePath cfg extraGoTestArgs) =
     map (\<lambda>testName. Some (LabelPrefix cfg @ testName)) testNames"
  by (simp add: makeGeneratedTasks_def labelString_def)

lemma makeGeneratedTasks_marked:
  assumes "GeneratedEnvKey cfg \<noteq> ''ZED_GO_TEST_FILE''"
    and "GeneratedEnvKey cfg \<noteq> ''ZED_GO_TEST_NAME''"
  shows "\<forall>g\<in>set (makeGeneratedTasks testNames pkgArg relFilePath cfg extraGoTestArgs).
     isGenerated g cfg"
  using assms by (auto simp: makeGeneratedTasks_def isGenerated_def)
section \<open>Properties of the normalisation\<close>

text \<open>The loop of \<^verbatim>\<open>stripJSONComments\<close>, state by state.\<close>

lemma stringStep_apply:
  "stringStep (s, e) ch =
     (if s then
        (if e then (True, False)
         else if ch = CHR 0x5C then (True, True)
         else if ch = CHR 0x22 then (False, False)
         else (True, False))
      else if ch = CHR 0x22 then (True, e)
      else (False, e))"
  by (simp add: stringStep_def)

lemma stripCommentsLoop_line:
  "stripCommentsLoop (ch # rest) s True b e out =
     (if ch = CHR 0x0A then stripCommentsLoop rest s False b e (out @ [ch])
      else stripCommentsLoop rest s True b e out)"
  by simp

lemma stripCommentsLoop_block:
  "stripCommentsLoop (ch # rest) s False True e out =
     (case rest of
        [] \<Rightarrow> stripCommentsLoop rest s False True e out
      | next # rest' \<Rightarrow>
          if ch = CHR ''*'' \<and> next = CHR ''/'' then stripCommentsLoop rest' s False False e out
          else stripCommentsLoop rest s False True e out)"
  by simp

lemma stripCommentsLoop_string:
  "stripCommentsLoop (ch # rest) True False False e out =
     (if e then stripCommentsLoop rest True False False False (out @ [ch])
      else if ch = CHR 0x5C then stripCommentsLoop rest True False False True (out @ [ch])
      else if ch = CHR 0x22 then stripCommentsLoop rest False False False e (out @ [ch])
      else stripCommentsLoop rest True False False e (out @ [ch]))"
  by simp

lemma stripCommentsLoop_normal:
  "stripCommentsLoop (ch # rest) False False False e out =
     (if ch = CHR 0x22 then stripCommentsLoop rest True False False e (out @ [ch])
      else
        (case rest of
           [] \<Rightarrow> stripCommentsLoop rest False False False e (out @ [ch])
         | next # rest' \<Rightarrow>
             if ch = CHR ''/'' \<and> next = CHR ''/'' then stripCommentsLoop rest' False True False e out
             else if ch = CHR ''/'' \<and> next = CHR ''*''
             then stripCommentsLoop rest' False False True e out
             else stripCommentsLoop rest False False False e (out @ [ch])))"
  by simp

lemmas stripCommentsLoop_step =
  stripCommentsLoop_line stripCommentsLoop_block stripCommentsLoop_string
  stripCommentsLoop_normal

declare stripCommentsLoop.simps(2) [simp del]

lemma stripCommentsLoop_acc:
  "stripCommentsLoop data s l b e (out1 @ out2) =
     (case stripCommentsLoop data s l b e out2 of (out, flags) \<Rightarrow> (out1 @ out, flags))"
proof (induction data arbitrary: s l b e out2 rule: induct_list012)
  case 1
  show ?case by simp
next
  case (2 x)
  show ?case
    by (cases l; cases b; cases s) (simp_all add: stripCommentsLoop_step [of x])
next
  case (3 x y zs)
  have a: "\<And>s l b e out2. stripCommentsLoop zs s l b e (out1 @ out2) =
     (case stripCommentsLoop zs s l b e out2 of (out, flags) \<Rightarrow> (out1 @ out, flags))"
    by (rule "3.IH"(1))
  have b: "\<And>s l b e out2. stripCommentsLoop (y # zs) s l b e (out1 @ out2) =
     (case stripCommentsLoop (y # zs) s l b e out2 of (out, flags) \<Rightarrow> (out1 @ out, flags))"
    by (rule "3.IH"(2))
  show ?case
    by (cases l; cases b; cases s)
      (simp_all add: stripCommentsLoop_step [of x] a b)
qed


lemma stripCommentsLoop_out:
  "stripCommentsLoop data s l b e out =
     (case stripCommentsLoop data s l b e [] of (out', flags) \<Rightarrow> (out @ out', flags))"
  using stripCommentsLoop_acc [of data s l b e out "[]"] by simp

text \<open>A byte that is neither a slash nor a star cuts the input: the look-ahead never reads past it.\<close>

lemma stripCommentsLoop_cut:
  assumes "c \<noteq> CHR ''/''" and "c \<noteq> CHR ''*''"
  shows "stripCommentsLoop (xs @ c # rest) s l b e out =
     (case stripCommentsLoop xs s l b e out of
        (out', s', l', b', e') \<Rightarrow> stripCommentsLoop (c # rest) s' l' b' e' out')"
proof (induction xs arbitrary: s l b e out rule: induct_list012)
  case 1
  show ?case by simp
next
  case (2 x)
  show ?case
    using assms
    by (cases l; cases b; cases s) (simp_all add: stripCommentsLoop_step [of x])
next
  case (3 x y zs)
  have a: "\<And>s l b e out. stripCommentsLoop (zs @ c # rest) s l b e out =
     (case stripCommentsLoop zs s l b e out of
        (out', s', l', b', e') \<Rightarrow> stripCommentsLoop (c # rest) s' l' b' e' out')"
    by (rule "3.IH"(1))
  have b: "\<And>s l b e out. stripCommentsLoop (y # zs @ c # rest) s l b e out =
     (case stripCommentsLoop (y # zs) s l b e out of
        (out', s', l', b', e') \<Rightarrow> stripCommentsLoop (c # rest) s' l' b' e' out')"
    using "3.IH"(2) by simp
  show ?case
    by (cases l; cases b; cases s) (simp_all add: stripCommentsLoop_step [of x] a b)
qed

lemma stripCommentsLoop_body:
  "stringBody body \<Longrightarrow>
   stripCommentsLoop (body @ CHR 0x22 # rest) True False False False out =
     stripCommentsLoop rest False False False False (out @ body @ [CHR 0x22])"
proof (induction body arbitrary: out rule: stringBody.induct)
  case 1
  show ?case by (simp add: stripCommentsLoop_string)
next
  case (2 c cs)
  show ?case
  proof (cases "c = CHR 0x5C")
    case True
    with "2.prems" obtain d cs' where cs: "cs = d # cs'" and body: "stringBody cs'"
      by (cases cs) auto
    from "2.IH"(1) [OF True cs body, of "out @ [c, d]"] True cs show ?thesis
      by (simp add: stripCommentsLoop_string)
  next
    case False
    with "2.prems" have q: "c \<noteq> CHR 0x22" and body: "stringBody cs" by auto
    from "2.IH"(2) [OF False body, of "out @ [c]"] False q show ?thesis
      by (simp add: stripCommentsLoop_string)
  qed
qed

text \<open>The flags \<^verbatim>\<open>inString\<close> and \<^verbatim>\<open>escape\<close> are the string state of the output written so far.\<close>

lemma stripCommentsLoop_stringState:
  assumes "stripCommentsLoop data s l b e out = (out', s', l', b', e')"
    and "l \<longrightarrow> \<not> s"
    and "foldl stringStep st out = (s, e)"
  shows "foldl stringStep st out' = (s', e')"
  using assms
proof (induction data arbitrary: s l b e out rule: induct_list012)
  case 1
  then show ?case by simp
next
  case (2 x)
  then show ?case
    by (cases l; cases b; cases s)
      (auto simp: stripCommentsLoop_step [of x] stringStep_apply split: if_splits)
next
  case (3 x y zs)
  note IH1 = "3.IH"(1) and IH2 = "3.IH"(2)
  show ?case
  proof (cases l)
    case True
    with "3.prems"(2) have s: "\<not> s" by simp
    show ?thesis
    proof (cases "x = CHR 0x0A")
      case nl: True
      from "3.prems"(1) True nl
      have run: "stripCommentsLoop (y # zs) s False b e (out @ [x]) = (out', s', l', b', e')"
        by (simp add: stripCommentsLoop_line)
        have st: "foldl stringStep st (out @ [x]) = (s, e)"
          using "3.prems"(3) s nl by (simp add: stringStep_apply)
        show ?thesis by (rule IH2 [OF run _ st]) simp
    next
      case False
      from "3.prems"(1) True False
      have run: "stripCommentsLoop (y # zs) s True b e out = (out', s', l', b', e')"
        by (simp add: stripCommentsLoop_line)
        show ?thesis using s by (intro IH2 [OF run _ "3.prems"(3)]) simp_all
    qed
  next
    case nl: False
    show ?thesis
    proof (cases b)
      case True
      show ?thesis
      proof (cases "x = CHR ''*'' \<and> y = CHR ''/''")
        case ends: True
        from "3.prems"(1) nl True ends
        have run: "stripCommentsLoop zs s False False e out = (out', s', l', b', e')"
          by (simp add: stripCommentsLoop_block)
          show ?thesis using TrueI by (intro IH1 [OF run _ "3.prems"(3)]) simp_all
      next
        case False
        from "3.prems"(1) nl True False
        have run: "stripCommentsLoop (y # zs) s False True e out = (out', s', l', b', e')"
          by (auto simp: stripCommentsLoop_block)
          show ?thesis using TrueI by (intro IH2 [OF run _ "3.prems"(3)]) simp_all
      qed
    next
      case nb: False
      show ?thesis
      proof (cases s)
        case True
        obtain s1 e1 where step: "stringStep (s, e) x = (s1, e1)" by (cases "stringStep (s, e) x")
        from "3.prems"(1) nl nb True step
        have run: "stripCommentsLoop (y # zs) s1 False False e1 (out @ [x]) = (out', s', l', b', e')"
          by (auto simp: stripCommentsLoop_string stringStep_apply split: if_splits)
          have st: "foldl stringStep st (out @ [x]) = (s1, e1)"
            using "3.prems"(3) step by simp
          show ?thesis by (rule IH2 [OF run _ st]) simp
      next
        case ns: False
        show ?thesis
        proof (cases "x = CHR ''/'' \<and> (y = CHR ''/'' \<or> y = CHR ''*'')")
          case True
          with "3.prems"(1) nl nb ns
          have run: "stripCommentsLoop zs False (y = CHR ''/'') (y = CHR ''*'') e out = (out', s', l', b', e')"
            by (auto simp: stripCommentsLoop_normal)
            have st: "foldl stringStep st out = (False, e)" using "3.prems"(3) ns by simp
            show ?thesis by (rule IH1 [OF run _ st]) simp
        next
          case False
          obtain s1 e1 where step: "stringStep (s, e) x = (s1, e1)" by (cases "stringStep (s, e) x")
          from "3.prems"(1) nl nb ns False step
          have run: "stripCommentsLoop (y # zs) s1 False False e1 (out @ [x]) = (out', s', l', b', e')"
            by (auto simp: stripCommentsLoop_normal stringStep_apply split: if_splits)
            have st: "foldl stringStep st (out @ [x]) = (s1, e1)"
              using "3.prems"(3) step by simp
            show ?thesis by (rule IH2 [OF run _ st]) simp
        qed
      qed
    qed
  qed
qed

lemma stripCommasLoop_acc:
  "stripCommasLoop data s e (out1 @ out2) = out1 @ stripCommasLoop data s e out2"
  by (induction data arbitrary: s e out2) simp_all

lemma stripCommasLoop_out:
  "stripCommasLoop data s e out = out @ stripCommasLoop data s e []"
  using stripCommasLoop_acc [of data s e out "[]"] by simp

lemma closerFollows_cut:
  "\<not> isJSONWhitespace c \<Longrightarrow> c \<noteq> CHR ''}'' \<Longrightarrow> c \<noteq> CHR '']'' \<Longrightarrow>
   closerFollows (xs @ c # rest) = closerFollows xs"
  by (induction xs) (simp_all add: closerFollows_def)

lemma stripCommasLoop_cut:
  assumes "\<not> isJSONWhitespace c" and "c \<noteq> CHR ''}''" and "c \<noteq> CHR '']''"
  shows "stripCommasLoop (xs @ c # rest) s e out =
     stripCommasLoop (c # rest) (fst (foldl stringStep (s, e) xs)) (snd (foldl stringStep (s, e) xs))
       (stripCommasLoop xs s e out)"
proof (induction xs arbitrary: s e out)
  case Nil
  show ?case by simp
next
  case (Cons x xs)
  note cut = closerFollows_cut [OF assms, of xs rest]
  show ?case
    by (cases s; cases e)
      (simp_all add: Cons.IH stringStep_apply cut del: stripCommasLoop.simps(2)
         add: stripCommasLoop.simps(2) [of x])
qed

lemma stripCommasLoop_body:
  "stringBody body \<Longrightarrow>
   stripCommasLoop (body @ CHR 0x22 # rest) True False out =
     stripCommasLoop rest False False (out @ body @ [CHR 0x22])"
proof (induction body arbitrary: out rule: stringBody.induct)
  case 1
  show ?case by simp
next
  case (2 c cs)
  show ?case
  proof (cases "c = CHR 0x5C")
    case True
    with "2.prems" obtain d cs' where cs: "cs = d # cs'" and body: "stringBody cs'"
      by (cases cs) auto
    from "2.IH"(1) [OF True cs body, of "out @ [c, d]"] True cs show ?thesis
      by simp
  next
    case False
    with "2.prems" have q: "c \<noteq> CHR 0x22" and body: "stringBody cs" by auto
    from "2.IH"(2) [OF False body, of "out @ [c]"] False q show ?thesis
      by simp
  qed
qed

lemma stripJSONComments_literal:
  assumes pre: "stripCommentsLoop pre False False False False [] = (a, False, False, False, False)"
    and body: "stringBody body"
  shows "stripJSONComments (pre @ CHR 0x22 # body @ CHR 0x22 # post) =
     (case stripJSONComments post of
        Inl err \<Rightarrow> Inl err
      | Inr c \<Rightarrow> Inr (a @ CHR 0x22 # body @ CHR 0x22 # c))"
proof -
  have "stripCommentsLoop (pre @ CHR 0x22 # body @ CHR 0x22 # post) False False False False [] =
      stripCommentsLoop (CHR 0x22 # body @ CHR 0x22 # post) False False False False a"
    using stripCommentsLoop_cut [of "CHR 0x22" pre "body @ CHR 0x22 # post" False False False False "[]"]
    by (simp add: pre)
  also have "\<dots> = stripCommentsLoop (body @ CHR 0x22 # post) True False False False (a @ [CHR 0x22])"
    by (simp add: stripCommentsLoop_normal)
  also have "\<dots> = stripCommentsLoop post False False False False ((a @ [CHR 0x22]) @ body @ [CHR 0x22])"
    by (rule stripCommentsLoop_body [OF body])
  also have "\<dots> = (case stripCommentsLoop post False False False False [] of
      (out, flags) \<Rightarrow> (((a @ [CHR 0x22]) @ body @ [CHR 0x22]) @ out, flags))"
    by (rule stripCommentsLoop_out)
  finally show ?thesis
    by (simp add: stripJSONComments_def split: prod.splits)
qed

lemma stripTrailingCommas_literal:
  assumes a: "foldl stringStep (False, False) a = (False, False)"
    and body: "stringBody body"
  shows "stripTrailingCommas (a @ CHR 0x22 # body @ CHR 0x22 # c) =
     stripTrailingCommas a @ CHR 0x22 # body @ CHR 0x22 # stripTrailingCommas c"
proof -
  have q: "\<not> isJSONWhitespace (CHR 0x22)" "CHR 0x22 \<noteq> CHR ''}''" "CHR 0x22 \<noteq> CHR '']''"
    by (simp_all add: isJSONWhitespace_def)
  have "stripCommasLoop (a @ CHR 0x22 # body @ CHR 0x22 # c) False False [] =
      stripCommasLoop (CHR 0x22 # body @ CHR 0x22 # c) False False (stripCommasLoop a False False [])"
    using stripCommasLoop_cut [OF q, of a "body @ CHR 0x22 # c" False False "[]"] by (simp add: a)
  also have "\<dots> = stripCommasLoop (body @ CHR 0x22 # c) True False
      (stripCommasLoop a False False [] @ [CHR 0x22])"
    by simp
  also have "\<dots> = stripCommasLoop c False False
      ((stripCommasLoop a False False [] @ [CHR 0x22]) @ body @ [CHR 0x22])"
    by (rule stripCommasLoop_body [OF body])
  also have "\<dots> = ((stripCommasLoop a False False [] @ [CHR 0x22]) @ body @ [CHR 0x22]) @
      stripCommasLoop c False False []"
    by (rule stripCommasLoop_out)
  finally show ?thesis
    by (simp add: stripTrailingCommas_def)
qed

lemma trimLeftSpace_ascii: "\<forall>c\<in>set data. asciiSpace c \<Longrightarrow> trimLeftSpace data = []"
proof (induction data)
  case Nil
  show ?case by (simp add: trimLeftSpace.simps [of "[]"] spaceWidthFront_def)
next
  case (Cons c data)
  then show ?case
    by (simp add: trimLeftSpace.simps [of "c # data"] spaceWidthFront_def)
qed

lemma TrimSpace_ascii: "\<forall>c\<in>set data. asciiSpace c \<Longrightarrow> TrimSpace data = []"
  by (simp add: TrimSpace_def trimLeftSpace_ascii trimRightSpace.simps [of "[]"] spaceWidthBack_def)

lemmas normalize_eval = normalizeRelaxedJSON_def stripJSONComments_def stripCommentsLoop_step
  stripTrailingCommas_def closerFollows_def isJSONWhitespace_def

lemma trimLeftSpace_spaces:
  "\<forall>c\<in>set ws. asciiSpace c \<Longrightarrow> trimLeftSpace (ws @ s) = trimLeftSpace s"
proof (induction ws)
  case Nil
  show ?case by simp
next
  case (Cons c ws)
  then show ?case
    by (simp add: trimLeftSpace.simps [of "c # ws @ s"] spaceWidthFront_def)
qed

lemma trimRightSpace_spaces:
  "\<forall>c\<in>set ws. asciiSpace c \<Longrightarrow> trimRightSpace (s @ ws) = trimRightSpace s"
proof (induction ws rule: rev_induct)
  case Nil
  show ?case by simp
next
  case (snoc c ws)
  then have c: "asciiSpace c" and ws: "\<forall>c\<in>set ws. asciiSpace c" by simp_all
  from c have "spaceWidthBack (s @ ws @ [c]) = 1"
    by (simp add: spaceWidthBack_def)
  then have "trimRightSpace (s @ ws @ [c]) = trimRightSpace (s @ ws)"
    by (simp add: trimRightSpace.simps [of "s @ ws @ [c]"])
  with snoc.IH [OF ws] show ?case by simp
qed

lemma TrimSpace_around:
  assumes "\<forall>c\<in>set ws1. asciiSpace c" and "\<forall>c\<in>set ws2. asciiSpace c"
    and "s \<noteq> []" and "\<not> asciiSpace (hd s)" and "(of_char (hd s) :: nat) < 128"
    and "\<not> asciiSpace (last s)" and "(of_char (last s) :: nat) < 128"
  shows "TrimSpace (ws1 @ s @ ws2) = s"
proof -
  have "trimLeftSpace (ws1 @ s @ ws2) = trimLeftSpace (s @ ws2)"
    by (rule trimLeftSpace_spaces [OF assms(1)])
  also have "\<dots> = s @ ws2"
    using assms(3-5) by (simp add: trimLeftSpace.simps [of "s @ ws2"] spaceWidthFront_ascii)
  finally have left: "trimLeftSpace (ws1 @ s @ ws2) = s @ ws2" .
  have "trimRightSpace (s @ ws2) = trimRightSpace s"
    by (rule trimRightSpace_spaces [OF assms(2)])
  also have "\<dots> = s"
    using assms(3,6,7) by (simp add: trimRightSpace.simps [of s] spaceWidthBack_ascii)
  finally show ?thesis by (simp add: TrimSpace_def left)
qed

section \<open>Claims\<close>

text \<open>
  C1 (amended). Let every generated entry carry a string label, and let \<open>M\<close> be the document
  a first merge of \<open>G\<close> into \<open>D\<close> returns. With pruning disabled, merging \<open>G\<close> into \<open>M\<close> returns
  \<open>M\<close> again with no addition, no removal and one update per generated entry. With pruning
  enabled, if the generated entries carry the marker and no unmarked entry of \<open>D\<close> has the
  label of a generated entry, merging \<open>G\<close> into \<open>M\<close> returns \<open>M\<close> again as well, but the entries
  the first merge added are pruned and appended once more: the second merge reports as
  many additions and removals as the first merge reported additions.
\<close>

theorem merge_again_same_document:
  assumes lab: "\<forall>g\<in>set G. labelString g \<noteq> None"
    and first: "mergeTasks (Inr D) G cfg = Inr (M, st)"
  shows "(\<not> PruneGenerated cfg \<longrightarrow>
            mergeTasks (Inr M) G cfg =
              Inr (M, \<lparr>Added = 0, Updated = length G, Removed = 0\<rparr>)) \<and>
         (PruneGenerated cfg \<and> (\<forall>g\<in>set G. isGenerated g cfg) \<and>
          (\<forall>t\<in>set D. \<not> isGenerated t cfg \<longrightarrow> labelOrEmpty t \<notin> labelOrEmpty ` set G) \<longrightarrow>
            mergeTasks (Inr M) G cfg =
              Inr (M, \<lparr>Added = Added st, Updated = Updated st, Removed = Added st\<rparr>))"
proof (intro conjI impI)
  assume np: "\<not> PruneGenerated cfg"
  from first have M: "M = fst (foldl upsertStep (D, indexLoop D 0 Map.empty) G)"
    by (simp add: mergeTasks_Inr keptEntries_no_prune [OF np])
  from merge_again_no_prune [OF lab M]
  show "mergeTasks (Inr M) G cfg = Inr (M, \<lparr>Added = 0, Updated = length G, Removed = 0\<rparr>)"
    using np by (simp add: mergeTasks_Inr keptEntries_no_prune)
next
  assume "PruneGenerated cfg \<and> (\<forall>g\<in>set G. isGenerated g cfg) \<and>
          (\<forall>t\<in>set D. \<not> isGenerated t cfg \<longrightarrow> labelOrEmpty t \<notin> labelOrEmpty ` set G)"
  then have p: "PruneGenerated cfg" and gen: "\<forall>g\<in>set G. isGenerated g cfg"
    and free: "\<forall>t\<in>set D. \<not> isGenerated t cfg \<longrightarrow> labelOrEmpty t \<notin> labelOrEmpty ` set G"
    by simp_all
  define F where "F = filter (\<lambda>t. \<not> isGenerated t cfg) D"
  have kD: "keptEntries cfg D = F" using p by (simp add: keptEntries_prune F_def)
  from first have M: "M = fst (foldl upsertStep (F, indexLoop F 0 Map.empty) G)"
    and st: "st = \<lparr>Added = length M - length F, Updated = length G + length F - length M,
               Removed = length (filter (\<lambda>t. PruneGenerated cfg \<and> isGenerated t cfg) D)\<rparr>"
    by (auto simp: mergeTasks_Inr kD)
  have user: "filter (\<lambda>t. \<not> isGenerated t cfg) M = F"
    unfolding M by (rule merge_keeps_user_entries [OF gen free F_def])
  then have kM: "keptEntries cfg M = F" using p by (simp add: keptEntries_prune)
  have "length (filter (\<lambda>t. isGenerated t cfg) M) + length (filter (\<lambda>t. \<not> isGenerated t cfg) M) = length M"
    by (rule sum_length_filter_compl)
  then have removed: "length (filter (\<lambda>t. isGenerated t cfg) M) = length M - length F"
    using user by simp
  show "mergeTasks (Inr M) G cfg =
      Inr (M, \<lparr>Added = Added st, Updated = Updated st, Removed = Added st\<rparr>)"
    using p removed by (simp add: mergeTasks_Inr kM M [symmetric] st)
qed

theorem merge_again_same_document_witness:
  "mergeTasks (Inr [userBuild, generatedOld, generatedAlpha]) [generatedAlpha]
       (defaultConfig\<lparr>PruneGenerated := False\<rparr>) =
     Inr ([userBuild, generatedOld, generatedAlpha],
          \<lparr>Added = 0, Updated = 1, Removed = 0\<rparr>) \<and>
   mergeTasks (Inr [userBuild, generatedAlpha]) [generatedAlpha] defaultConfig =
     Inr ([userBuild, generatedAlpha], \<lparr>Added = 1, Updated = 0, Removed = 1\<rparr>)"
proof -
  have lab: "\<forall>g\<in>set [generatedAlpha]. labelString g \<noteq> None"
    by (simp add: labelString_def generatedAlpha_def)
  have first_off:
    "mergeTasks (Inr [userBuild, generatedOld]) [generatedAlpha]
         (defaultConfig\<lparr>PruneGenerated := False\<rparr>) =
       Inr ([userBuild, generatedOld, generatedAlpha],
            \<lparr>Added = 1, Updated = 0, Removed = 0\<rparr>)"
    by (simp add: merge_eval example_entries)
  have first_on:
    "mergeTasks (Inr [userBuild, generatedOld]) [generatedAlpha] defaultConfig =
       Inr ([userBuild, generatedAlpha], \<lparr>Added = 1, Updated = 0, Removed = 1\<rparr>)"
    by (simp add: merge_eval example_entries)
  have marked: "\<forall>g\<in>set [generatedAlpha]. isGenerated g defaultConfig"
    by (simp add: isGenerated_def defaultConfig_def generatedAlpha_def)
  have free: "\<forall>t\<in>set [userBuild, generatedOld]. \<not> isGenerated t defaultConfig \<longrightarrow>
      labelOrEmpty t \<notin> labelOrEmpty ` set [generatedAlpha]"
    by (simp add: isGenerated_def labelOrEmpty_def labelString_def defaultConfig_def
        example_entries)
  have on: "PruneGenerated defaultConfig" by (simp add: defaultConfig_def)
  from merge_again_same_document [OF lab first_off]
  have "mergeTasks (Inr [userBuild, generatedOld, generatedAlpha]) [generatedAlpha]
       (defaultConfig\<lparr>PruneGenerated := False\<rparr>) =
     Inr ([userBuild, generatedOld, generatedAlpha],
          \<lparr>Added = 0, Updated = 1, Removed = 0\<rparr>)"
    by simp
  moreover from merge_again_same_document [OF lab first_on] on marked free
  have "mergeTasks (Inr [userBuild, generatedAlpha]) [generatedAlpha] defaultConfig =
     Inr ([userBuild, generatedAlpha], \<lparr>Added = 1, Updated = 0, Removed = 1\<rparr>)"
    by simp
  ultimately show ?thesis by simp
qed

text \<open>
  C1 as stated fails under the default policy (pruning enabled): the first merge of one
  generated entry into the empty document adds it; the second merge, against the document
  just produced, prunes that entry and appends it again, so it reports one removal and one
  addition, and no update.
\<close>

theorem merge_again_counts_counterexample:
  "mergeTasks (Inr []) [generatedAlpha] defaultConfig =
     Inr ([generatedAlpha], \<lparr>Added = 1, Updated = 0, Removed = 0\<rparr>) \<and>
   mergeTasks (Inr [generatedAlpha]) [generatedAlpha] defaultConfig =
     Inr ([generatedAlpha], \<lparr>Added = 1, Updated = 0, Removed = 1\<rparr>)"
  by (simp add: merge_eval example_entries)

text \<open>
  The condition on labels in the second half cannot be dropped: when a generated entry
  has overwritten an unmarked entry in place, the next merge prunes it from that place and
  appends it at the end, so the document changes.
\<close>

lemma merge_again_moves_entry_after_overwrite:
  "mergeTasks (Inr [userAlpha, userBuild]) [generatedAlpha] defaultConfig =
     Inr ([generatedAlpha, userBuild], \<lparr>Added = 0, Updated = 1, Removed = 0\<rparr>) \<and>
   mergeTasks (Inr [generatedAlpha, userBuild]) [generatedAlpha] defaultConfig =
     Inr ([userBuild, generatedAlpha], \<lparr>Added = 1, Updated = 0, Removed = 1\<rparr>)"
  by (simp add: merge_eval example_entries)

text \<open>
  C2 (amended). For every document \<open>D\<close>, generated set \<open>G\<close> and pruning policy, the merge
  returns a document \<open>M\<close> in which the entries that survive the first loop
  (\<^const>\<open>keptEntries\<close>: all of \<open>D\<close> without pruning, the entries of \<open>D\<close> without the marker with
  pruning) occupy the first positions, in their order. The entry at position \<open>i\<close> is replaced
  only if it is the last surviving entry with its string label and some entry of \<open>G\<close> has that
  label, read as the third loop reads it (the empty string for an entry of \<open>G\<close> without a
  string label); position \<open>i\<close> of \<open>M\<close> then holds the last such entry of \<open>G\<close>. Every other
  surviving entry is in \<open>M\<close> at its position, unchanged: an earlier entry with a repeated
  label and an entry without a string label are never replaced. In particular the entries
  of \<open>D\<close> that do not carry the marker and whose label is not a string, or is a string that
  no entry of \<open>G\<close> has as its label, all appear in \<open>M\<close>, unchanged and in the order they have
  in \<open>D\<close>.
\<close>

theorem kept_entries_replaced_only_by_label:
  "\<exists>M st. mergeTasks (Inr D) G cfg = Inr (M, st) \<and>
     length (keptEntries cfg D) \<le> length M \<and>
     (\<forall>i<length (keptEntries cfg D).
        M ! i = (if overwriting (keptEntries cfg D) G i = [] then keptEntries cfg D ! i
                 else last (overwriting (keptEntries cfg D) G i))) \<and>
     subseq (filter (\<lambda>t. \<not> isGenerated t cfg \<and>
                         labelString t \<notin> Some ` labelOrEmpty ` set G) D) M"
proof -
  define F where "F = keptEntries cfg D"
  define M where "M = fst (foldl upsertStep (F, indexLoop F 0 Map.empty) G)"
  define P where
    "P = (\<lambda>t. \<not> isGenerated t cfg \<and> labelString t \<notin> Some ` labelOrEmpty ` set G)"
  have len: "length F \<le> length M"
    unfolding M_def using foldl_upsertStep_length [of "(F, indexLoop F 0 Map.empty)" G]
    by simp
  have pos: "\<forall>i<length F. M ! i =
        (if overwriting F G i = [] then F ! i else last (overwriting F G i))"
    unfolding M_def F_def using merge_positions [of _ cfg D G] by blast
  have same: "\<forall>i<length F. P (F ! i) \<longrightarrow> M ! i = F ! i"
  proof (intro allI impI)
    fix i
    assume i: "i < length F" and "P (F ! i)"
    then have "overwriting F G i = []"
      unfolding P_def by (intro overwriting_Nil) simp
    with pos i show "M ! i = F ! i" by simp
  qed
  have "subseq (filter P F) M"
    using len same by (rule subseq_filter_nth)
  then have sub: "subseq (filter P D) M"
    unfolding P_def F_def by (simp only: keptEntries_filter_untouched)
  obtain st where "mergeTasks (Inr D) G cfg = Inr (M, st)"
    unfolding M_def F_def by (simp add: mergeTasks_Inr)
  with len pos sub show ?thesis
    unfolding P_def F_def by blast
qed


theorem kept_entries_replaced_only_by_label_witness:
  "mergeTasks (Inr [generatedOld, userAlpha, userAlpha, userBuild]) [generatedAlpha]
       defaultConfig =
     Inr ([userAlpha, generatedAlpha, userBuild], \<lparr>Added = 0, Updated = 1, Removed = 1\<rparr>) \<and>
   keptEntries defaultConfig [generatedOld, userAlpha, userAlpha, userBuild] =
     [userAlpha, userAlpha, userBuild] \<and>
   overwriting [userAlpha, userAlpha, userBuild] [generatedAlpha] 0 = [] \<and>
   overwriting [userAlpha, userAlpha, userBuild] [generatedAlpha] (Suc 0) = [generatedAlpha] \<and>
   overwriting [userAlpha, userAlpha, userBuild] [generatedAlpha] (Suc (Suc 0)) = [] \<and>
   subseq [userBuild] [userAlpha, generatedAlpha, userBuild]"
proof -
  have run: "mergeTasks (Inr [generatedOld, userAlpha, userAlpha, userBuild]) [generatedAlpha]
       defaultConfig =
     Inr ([userAlpha, generatedAlpha, userBuild], \<lparr>Added = 0, Updated = 1, Removed = 1\<rparr>)"
    by (simp add: merge_eval example_entries)
  have kept: "keptEntries defaultConfig [generatedOld, userAlpha, userAlpha, userBuild] =
     [userAlpha, userAlpha, userBuild]"
    by (simp add: keptEntries_def merge_eval example_entries)
  have over:
    "overwriting [userAlpha, userAlpha, userBuild] [generatedAlpha] 0 = []"
    "overwriting [userAlpha, userAlpha, userBuild] [generatedAlpha] (Suc 0) = [generatedAlpha]"
    "overwriting [userAlpha, userAlpha, userBuild] [generatedAlpha] (Suc (Suc 0)) = []"
    by (simp_all add: overwriting_def lastLabelled_def merge_eval example_entries)
  have unmarked:
    "filter (\<lambda>t. \<not> isGenerated t defaultConfig \<and>
                 labelString t \<notin> Some ` labelOrEmpty ` set [generatedAlpha])
       [generatedOld, userAlpha, userAlpha, userBuild] = [userBuild]"
    by (simp add: merge_eval example_entries)
  from kept_entries_replaced_only_by_label
      [of "[generatedOld, userAlpha, userAlpha, userBuild]" "[generatedAlpha]" defaultConfig]
  have "subseq [userBuild] [userAlpha, generatedAlpha, userBuild]"
    unfolding run kept unmarked by simp
  with run kept over show ?thesis by simp
qed

text \<open>
  C2 as stated fails when a generated entry has the label of an unmarked entry: the loop
  finds the label in \<^verbatim>\<open>labelIndex\<close> and overwrites the entry in place, whether or not it
  carries the marker.
\<close>

theorem unmarked_entry_overwritten_counterexample:
  "mergeTasks (Inr [userAlpha, userBuild]) [generatedAlpha] defaultConfig =
     Inr ([generatedAlpha, userBuild], \<lparr>Added = 0, Updated = 1, Removed = 0\<rparr>) \<and>
   \<not> isGenerated userAlpha defaultConfig \<and>
   userAlpha \<notin> set [generatedAlpha, userBuild]"
  by (simp add: merge_eval example_entries)

text \<open>
  C3 (amended). If the string labels of the entries that survive the first loop (all
  entries of \<open>D\<close> when pruning is off, the unmarked ones when it is on) are pairwise
  distinct, then so are the string labels of the merged document, whatever the generated
  entries are.
\<close>

theorem distinct_labels_preserved:
  assumes "distinct (stringLabels (keptEntries cfg D))"
    and "mergeTasks (Inr D) G cfg = Inr (M, st)"
  shows "distinct (stringLabels M)"
proof -
  let ?F = "keptEntries cfg D"
  let ?s = "foldl upsertStep (?F, indexLoop ?F 0 Map.empty) G"
  have "labelsAgree ?s"
    using assms(1) by (intro labelsAgree_foldl labelsAgree_indexLoop)
  then have "distinct (stringLabels (fst ?s))"
    unfolding labelsAgree_def by (rule labelsAgree_distinct)
  moreover have "M = fst ?s"
    using assms(2) by (simp add: mergeTasks_Inr)
  ultimately show ?thesis by simp
qed

theorem distinct_labels_preserved_witness:
  "distinct (stringLabels (keptEntries defaultConfig [userBuild, generatedOld])) \<and>
   mergeTasks (Inr [userBuild, generatedOld]) [generatedAlpha, generatedAlpha] defaultConfig =
     Inr ([userBuild, generatedAlpha], \<lparr>Added = 1, Updated = 1, Removed = 1\<rparr>) \<and>
   distinct (stringLabels [userBuild, generatedAlpha])"
proof -
  have kept: "distinct (stringLabels (keptEntries defaultConfig [userBuild, generatedOld]))"
    by (simp add: keptEntries_def stringLabels_Cons stringLabels_Nil merge_eval example_entries)
  have merged:
    "mergeTasks (Inr [userBuild, generatedOld]) [generatedAlpha, generatedAlpha] defaultConfig =
       Inr ([userBuild, generatedAlpha], \<lparr>Added = 1, Updated = 1, Removed = 1\<rparr>)"
    by (simp add: merge_eval example_entries)
  from distinct_labels_preserved [OF kept merged] kept merged show ?thesis by simp
qed

text \<open>
  C3 as stated fails for a document that already holds two entries under one label: the
  merge indexes the later one only and never removes or renames the earlier, so both are
  still there afterwards, with or without a generated entry of that label.
\<close>

theorem duplicate_labels_survive_counterexample:
  "mergeTasks (Inr [userAlpha, userAlpha, userBuild]) [generatedAlpha] defaultConfig =
     Inr ([userAlpha, generatedAlpha, userBuild], \<lparr>Added = 0, Updated = 1, Removed = 0\<rparr>) \<and>
   labelString userAlpha = Some ''go:TestAlpha'' \<and>
   labelString generatedAlpha = Some ''go:TestAlpha'' \<and>
   \<not> distinct (stringLabels [userAlpha, generatedAlpha, userBuild])"
  by (simp add: merge_eval example_entries stringLabels_Cons stringLabels_Nil)

text \<open>
  C5 (amended). Without subtest discovery the selected names are exactly the names declared
  in the file that the toolchain listed as runnable, so a declared name the toolchain did
  not list is excluded. With discovery the selected names are exactly those names together
  with every name the discovery run reported: a subset of the union of the declared, the
  listed and the discovered names.
\<close>

theorem selected_names_exactly:
  "selectedTests False timeout unmarshal cmdResult testsInFile listed =
     Inr (sort (intersectTests testsInFile listed)) \<and>
   set (sort (intersectTests testsInFile listed)) = set testsInFile \<inter> listed \<and>
   (\<forall>selected. selectedTests True timeout unmarshal cmdResult testsInFile listed = Inr selected \<longrightarrow>
      (\<exists>discovered.
         discoverSubtestsWithGo unmarshal (sort (intersectTests testsInFile listed)) cmdResult =
           Inr discovered \<and>
         set selected = (set testsInFile \<inter> listed) \<union> set discovered))"
  by (auto simp: selectedTests_def Let_def set_intersectTests set_mergeUniqueTests
      split: sum.splits)

theorem selected_names_exactly_witness:
  "selectedTests False (Inr 30) unmarshalExample (exampleOutput, False)
       [''TestAlpha'', ''TestBeta''] {''TestAlpha''} = Inr [''TestAlpha''] \<and>
   (\<exists>discovered.
      discoverSubtestsWithGo unmarshalExample [''TestAlpha''] (exampleOutput, False) =
        Inr discovered \<and>
      set [''TestAlpha'', ''TestAlpha/case1''] = {''TestAlpha''} \<union> set discovered)"
proof -
  have runnable: "sort (intersectTests [''TestAlpha'', ''TestBeta''] {''TestAlpha''}) = [''TestAlpha'']"
    by (simp add: intersectTests_def)
  from selected_names_exactly
    [of "Inr 30" unmarshalExample "(exampleOutput, False)" "[''TestAlpha'', ''TestBeta'']"
      "{''TestAlpha''}"]
    exampleOutput_selected
  show ?thesis
    by (simp add: runnable)
qed

text \<open>
  C5 as stated fails with discovery enabled: the discovery run reports the subtest
  \<^verbatim>\<open>TestAlpha/case1\<close>, which is selected although it is neither declared in the file nor in
  the toolchain's list of runnable names.
\<close>

theorem discovered_subtest_selected_counterexample:
  "selectedTests True (Inr 30) unmarshalExample (exampleOutput, False)
       [''TestAlpha'', ''TestBeta''] {''TestAlpha''} =
     Inr [''TestAlpha'', ''TestAlpha/case1''] \<and>
   ''TestAlpha/case1'' \<notin> set [''TestAlpha'', ''TestBeta''] \<union> {''TestAlpha''}"
  by (simp add: exampleOutput_selected)

text \<open>
  C6. For every test name the run selector is the segments of the name between slashes,
  each escaped and written \<^verbatim>\<open>^segment$\<close>, joined with slashes again; for a name without a
  slash it is the anchored, escaped name. Read by the synthetic matcher (anchored escaped
  literals, level by level), the selector matches the name it was built from and no other
  name.
\<close>

theorem run_selector_anchors_each_segment:
  "runPatternForTestName testName =
     Join (map (\<lambda>segment. ''^'' @ QuoteMeta segment @ ''$'') (Split testName (CHR ''/'')))
       (CHR ''/'') \<and>
   (CHR ''/'' \<notin> set testName \<longrightarrow>
      runPatternForTestName testName = ''^'' @ QuoteMeta testName @ ''$'') \<and>
   (selectorMatches (runPatternForTestName testName) name \<longleftrightarrow> name = testName)"
proof (intro conjI impI)
  show "runPatternForTestName testName =
     Join (map (\<lambda>segment. ''^'' @ QuoteMeta segment @ ''$'') (Split testName (CHR ''/'')))
       (CHR ''/'')"
    by (rule runPatternForTestName_Join)
next
  assume "CHR ''/'' \<notin> set testName"
  then show "runPatternForTestName testName = ''^'' @ QuoteMeta testName @ ''$''"
    by (simp add: runPatternForTestName_Join Split_no_sep_id)
next
  have "selectorMatches (runPatternForTestName testName) name \<longleftrightarrow>
      Split name (CHR ''/'') = Split testName (CHR ''/'')"
    by (simp only: selectorMatches_def Split_runPattern list_all2_anchored)
  also have "\<dots> \<longleftrightarrow> name = testName"
    by (metis Join_Split)
  finally show "selectorMatches (runPatternForTestName testName) name \<longleftrightarrow> name = testName" .
qed

theorem run_selector_anchors_each_segment_witness:
  "runPatternForTestName ''TestAlpha'' = ''^TestAlpha$'' \<and>
   runPatternForTestName ''Outer/Inner with space'' = ''^Outer$/^Inner with space$'' \<and>
   selectorMatches ''^Outer$/^Inner with space$'' ''Outer/Inner with space'' \<and>
   \<not> selectorMatches ''^Outer$/^Inner with space$'' ''Outer/Inner with spacemore'' \<and>
   \<not> selectorMatches ''^Outer$/^Inner with space$'' ''XOuter/Inner with space'' \<and>
   \<not> selectorMatches ''^Outer$/^Inner with space$'' ''Outer''"
proof -
  have flat: "CHR ''/'' \<notin> set ''TestAlpha''" by simp
  have q: "QuoteMeta ''TestAlpha'' = ''TestAlpha''"
    by (simp add: QuoteMeta_def special_def)
  have p: "runPatternForTestName ''Outer/Inner with space'' = ''^Outer$/^Inner with space$''"
    by (simp add: runPatternForTestName_def QuoteMeta_def special_def)
  from run_selector_anchors_each_segment [of "''TestAlpha''"] flat q
  have 1: "runPatternForTestName ''TestAlpha'' = ''^TestAlpha$''" by simp
  have m: "selectorMatches (runPatternForTestName ''Outer/Inner with space'') name \<longleftrightarrow>
      name = ''Outer/Inner with space''" for name
    using run_selector_anchors_each_segment [of "''Outer/Inner with space''" name] by blast
  have "selectorMatches ''^Outer$/^Inner with space$'' ''Outer/Inner with space'' \<and>
   \<not> selectorMatches ''^Outer$/^Inner with space$'' ''Outer/Inner with spacemore'' \<and>
   \<not> selectorMatches ''^Outer$/^Inner with space$'' ''XOuter/Inner with space'' \<and>
   \<not> selectorMatches ''^Outer$/^Inner with space$'' ''Outer''"
    by (simp add: m [unfolded p])
  with 1 p show ?thesis by simp
qed

text \<open>
  C7. Let a document be \<open>pre\<close>, a string literal and \<open>post\<close>, where the comment scanner is
  outside strings and comments after \<open>pre\<close> (having written \<open>a\<close>) and the literal is a quote, a
  string body and a quote. Then normalising the document gives the literal byte for byte,
  between what the trailing-comma pass makes of \<open>a\<close> and what normalisation makes of \<open>post\<close>
  alone (and fails exactly when normalising \<open>post\<close> fails): nothing inside the quotes is
  read as a comment or as a trailing comma, whatever the body is.
\<close>

theorem string_literal_kept_verbatim:
  assumes pre: "stripCommentsLoop pre False False False False [] = (a, False, False, False, False)"
    and body: "stringBody body"
  shows "normalizeRelaxedJSON (pre @ CHR 0x22 # body @ CHR 0x22 # post) =
     (case normalizeRelaxedJSON post of
        Inl err \<Rightarrow> Inl err
      | Inr c \<Rightarrow> Inr (stripTrailingCommas a @ CHR 0x22 # body @ CHR 0x22 # c))"
proof -
  have st: "foldl stringStep (False, False) a = (False, False)"
    by (rule stripCommentsLoop_stringState [OF pre]) simp_all
  show ?thesis
    by (simp add: normalizeRelaxedJSON_def stripJSONComments_literal [OF pre body]
        stripTrailingCommas_literal [OF st body] split: sum.splits)
qed

theorem string_literal_kept_verbatim_witness:
  "normalizeRelaxedJSON (''[ /* c */ '' @ CHR 0x22 # ''// not a comment'' @ CHR 0x22 # '', ] // end'') =
     Inr (''[  '' @ CHR 0x22 # ''// not a comment'' @ CHR 0x22 # '' ] '') \<and>
   normalizeRelaxedJSON (''[ /* c */ '' @ CHR 0x22 # ''/* not a comment */'' @ CHR 0x22 # '', ] // end'') =
     Inr (''[  '' @ CHR 0x22 # ''/* not a comment */'' @ CHR 0x22 # '' ] '') \<and>
   normalizeRelaxedJSON (''[ /* c */ '' @ CHR 0x22 # ''a, }'' @ CHR 0x22 # '', ] // end'') =
     Inr (''[  '' @ CHR 0x22 # ''a, }'' @ CHR 0x22 # '' ] '')"
proof -
  have pre: "stripCommentsLoop ''[ /* c */ '' False False False False [] =
      (''[  '', False, False, False, False)"
    by (simp add: normalize_eval)
  have post: "normalizeRelaxedJSON '', ] // end'' = Inr '' ] ''"
    by (simp add: normalize_eval)
  have a: "stripTrailingCommas ''[  '' = ''[  ''"
    by (simp add: normalize_eval)
  have b1: "stringBody ''// not a comment''" and b2: "stringBody ''/* not a comment */''"
    and b3: "stringBody ''a, }''" by simp_all
  from string_literal_kept_verbatim [OF pre b1, of "'', ] // end''"] string_literal_kept_verbatim [OF pre b2, of "'', ] // end''"]
    string_literal_kept_verbatim [OF pre b3, of "'', ] // end''"]
  show ?thesis
    by (simp only: post a sum.case)
qed

text \<open>
  What \<^verbatim>\<open>discoverSubtestsWithGo\<close> returns when it is run for at least one top-level test.
  If the scanner reads the whole output, it returns the discovery error exactly when the
  subprocess failed and no run event named a test, and whenever a run event named a test it
  returns the names of the run events, sorted and without repetition, whatever the exit
  status. If the scanner stops with its error, that error is returned, whatever was read
  before and whatever the exit status.
\<close>

lemma discovery_failure_policy:
  assumes "topLevelTests \<noteq> []"
  shows
    "(\<forall>lines e. scanLines out [] = (lines, Some e) \<longrightarrow>
        discoverSubtestsWithGo unmarshal topLevelTests (out, failed) = Inl ScannerTokenTooLong) \<and>
     (\<forall>lines. scanLines out [] = (lines, None) \<longrightarrow>
        (discoverSubtestsWithGo unmarshal topLevelTests (out, failed) = Inl DiscoveryFailed \<longleftrightarrow>
           failed \<and> runEventsLoop unmarshal lines [] = []) \<and>
        (runEventsLoop unmarshal lines [] \<noteq> [] \<longrightarrow>
           discoverSubtestsWithGo unmarshal topLevelTests (out, failed) =
             Inr (sort (runEventsLoop unmarshal lines []))) \<and>
        sorted (sort (runEventsLoop unmarshal lines [])) \<and>
        distinct (sort (runEventsLoop unmarshal lines [])) \<and>
        set (sort (runEventsLoop unmarshal lines [])) =
          {Test ev | ev line. line \<in> set lines \<and> TrimSpace line \<noteq> [] \<and>
             unmarshal (TrimSpace line) = Some ev \<and> Action ev = ''run'' \<and> Test ev \<noteq> []})"
proof (intro conjI allI impI)
  fix lines e
  assume scan: "scanLines out [] = (lines, Some e)"
  with scanLines_err [of out "[]" e] have "e = ScannerTokenTooLong" by simp
  with scan assms
  show "discoverSubtestsWithGo unmarshal topLevelTests (out, failed) = Inl ScannerTokenTooLong"
    by (simp add: discoverSubtestsWithGo_def parseRunEventsFromGoTestJSON_def)
next
  fix lines
  assume scan: "scanLines out [] = (lines, None)"
  with assms
  show "discoverSubtestsWithGo unmarshal topLevelTests (out, failed) = Inl DiscoveryFailed \<longleftrightarrow>
           failed \<and> runEventsLoop unmarshal lines [] = []"
    by (auto simp: discoverSubtestsWithGo_def parseRunEventsFromGoTestJSON_def sort_eq_Nil)
next
  fix lines
  assume scan: "scanLines out [] = (lines, None)"
    and "runEventsLoop unmarshal lines [] \<noteq> []"
  with assms
  show "discoverSubtestsWithGo unmarshal topLevelTests (out, failed) =
             Inr (sort (runEventsLoop unmarshal lines []))"
    by (auto simp: discoverSubtestsWithGo_def parseRunEventsFromGoTestJSON_def sort_eq_Nil)
next
  fix lines
  show "sorted (sort (runEventsLoop unmarshal lines []))" by simp
  show "distinct (sort (runEventsLoop unmarshal lines []))"
    by (simp add: distinct_runEventsLoop)
  show "set (sort (runEventsLoop unmarshal lines [])) =
          {Test ev | ev line. line \<in> set lines \<and> TrimSpace line \<noteq> [] \<and>
             unmarshal (TrimSpace line) = Some ev \<and> Action ev = ''run'' \<and> Test ev \<noteq> []}"
    by (simp add: set_runEventsLoop)
qed

lemma discovery_failure_policy_example:
  "discoverSubtestsWithGo unmarshalExample [''TestAlpha''] (exampleOutput, True) =
     Inr [''TestAlpha'', ''TestAlpha/case1'']"
proof -
  have tests: "[''TestAlpha''] \<noteq> []" by simp
  have names: "sort [''TestAlpha/case1'', ''TestAlpha''] = [''TestAlpha'', ''TestAlpha/case1'']"
    by simp
  from discovery_failure_policy [OF tests, of exampleOutput unmarshalExample True]
    exampleOutput_lines
  show ?thesis
    by (simp add: exampleOutput_names names del: runEventsLoop.simps)
qed

text \<open>
  C8 (code bug). Discovery is to succeed whenever at least one test name was discovered, and
  a line that does not decode is to be skipped: the loop of \<^verbatim>\<open>parseRunEventsFromGoTestJSON\<close>
  says \<^verbatim>\<open>Ignore non-JSON lines and keep scanning\<close>, and \<^verbatim>\<open>discoverSubtestsWithGo\<close> is to
  \<^verbatim>\<open>only fail hard when nothing was discovered\<close>. By \<open>discovery_failure_policy\<close> the code does
  so whenever the scanner reads the output to its end. It does not at this input: the
  top-level test is \<^verbatim>\<open>TestAlpha\<close>, the subprocess exits with success, and its combined output
  is the run event of \<^verbatim>\<open>TestAlpha\<close>, a newline, and a line of 65536 bytes \<^verbatim>\<open>x\<close>. The first
  line, on its own, yields the name \<^verbatim>\<open>TestAlpha\<close>. The second line is not an event and is
  longer than the default buffer of \<^verbatim>\<open>bufio.Scanner\<close>: the scan stops with
  \<^verbatim>\<open>bufio.ErrTooLong\<close>, \<^verbatim>\<open>parseRunEventsFromGoTestJSON\<close> returns \<^verbatim>\<open>scanner.Err()\<close> and
  \<^verbatim>\<open>discoverSubtestsWithGo\<close> hands that error on before it looks at the names read or at
  the exit status. So the code returns an error where the claim, and the code's own
  comments, have discovery succeed with \<^verbatim>\<open>TestAlpha\<close>.
\<close>

theorem discovery_fails_on_long_line:
  "discoverSubtestsWithGo unmarshalExample [''TestAlpha'']
       (eventLine ''run'' ''TestAlpha'' @ CHR 0x0A # replicate 65536 (CHR ''x''), False) =
     Inl ScannerTokenTooLong \<and>
   parseRunEventsFromGoTestJSON unmarshalExample (eventLine ''run'' ''TestAlpha'' @ [CHR 0x0A]) =
     Inr [''TestAlpha'']"
  by (simp only: exampleTooLong exampleFirstLine_names)
text \<open>
  C9. An entry counts as generated exactly when its \<^verbatim>\<open>env\<close> field is an object whose value
  under the marker key is a string equal to the marker value. Pruning in \<^verbatim>\<open>mergeTasks\<close>
  and the loop of \<^verbatim>\<open>runClear\<close> drop exactly the entries so recognised and count them;
  every other entry (marker of another JSON type, \<^verbatim>\<open>env\<close> missing or not an object) stays
  in \<^verbatim>\<open>filtered\<close>.
\<close>

theorem isGenerated_string_marker_only:
  "(isGenerated task cfg \<longleftrightarrow>
      (\<exists>env. map_of task ''env'' = Some (AObj env) \<and>
             map_of env (GeneratedEnvKey cfg) = Some (AStr (GeneratedEnvValue cfg)))) \<and>
   pruneLoop cfg existing [] 0 =
     (filter (\<lambda>t. \<not> (PruneGenerated cfg \<and> isGenerated t cfg)) existing,
      length (filter (\<lambda>t. PruneGenerated cfg \<and> isGenerated t cfg) existing)) \<and>
   clearLoop cfg existing [] 0 =
     (filter (\<lambda>t. \<not> isGenerated t cfg) existing,
      length (filter (\<lambda>t. isGenerated t cfg) existing))"
proof -
  have "isGenerated task cfg \<longleftrightarrow>
      (\<exists>env. map_of task ''env'' = Some (AObj env) \<and>
             map_of env (GeneratedEnvKey cfg) = Some (AStr (GeneratedEnvValue cfg)))"
  proof (cases "map_of task ''env''")
    case None
    then show ?thesis by (simp add: isGenerated_def)
  next
    case envSome: (Some envAny)
    show ?thesis
    proof (cases envAny)
      case (AObj env)
      show ?thesis
      proof (cases "map_of env (GeneratedEnvKey cfg)")
        case None
        with envSome AObj show ?thesis by (simp add: isGenerated_def)
      next
        case (Some valAny)
        with envSome AObj show ?thesis
          by (cases valAny) (auto simp: isGenerated_def)
      qed
    qed (use envSome in \<open>simp_all add: isGenerated_def\<close>)
  qed
  then show ?thesis
    by (simp add: pruneLoop_eq clearLoop_eq)
qed

theorem isGenerated_string_marker_only_witness:
  "\<not> isGenerated [(''label'', AStr ''n''),
        (''env'', AObj [(''ZED_GO_TEST_TASK_GENERATED'', ANum 1)])] defaultConfig \<and>
   isGenerated [(''label'', AStr ''s''),
        (''env'', AObj [(''ZED_GO_TEST_TASK_GENERATED'', AStr ''1'')])] defaultConfig \<and>
   \<not> isGenerated [(''label'', AStr ''my-build''), (''env'', AStr ''x'')] defaultConfig \<and>
   \<not> isGenerated [(''label'', AStr ''my-build'')] defaultConfig"
  using isGenerated_string_marker_only
      [of "[(''label'', AStr ''n''),
            (''env'', AObj [(''ZED_GO_TEST_TASK_GENERATED'', ANum 1)])]" defaultConfig]
    isGenerated_string_marker_only
      [of "[(''label'', AStr ''s''),
            (''env'', AObj [(''ZED_GO_TEST_TASK_GENERATED'', AStr ''1'')])]" defaultConfig]
    isGenerated_string_marker_only
      [of "[(''label'', AStr ''my-build''), (''env'', AStr ''x'')]" defaultConfig]
    isGenerated_string_marker_only [of "[(''label'', AStr ''my-build'')]" defaultConfig]
  by (simp add: defaultConfig_def)

text \<open>
  C10. \<^verbatim>\<open>readTasks\<close> returns the empty sequence, not an error, for a file that does not
  exist and for a file whose contents are empty after \<^verbatim>\<open>bytes.TrimSpace\<close>, in particular
  for contents made of ASCII white space only. Contents that are not empty after trimming
  are normalised and decoded, and the result is what these two steps return.
\<close>

theorem readTasks_blank_file_is_empty:
  "readTasks unmarshal NotExist = Inr [] \<and>
   ((\<forall>c\<in>set data. asciiSpace c) \<longrightarrow> readTasks unmarshal (Contents data) = Inr []) \<and>
   (TrimSpace data = [] \<longrightarrow> readTasks unmarshal (Contents data) = Inr []) \<and>
   (TrimSpace data \<noteq> [] \<longrightarrow>
      readTasks unmarshal (Contents data) =
        (case normalizeRelaxedJSON (TrimSpace data) of
           Inl err \<Rightarrow> Inl err
         | Inr normalized \<Rightarrow> unmarshal normalized))"
  by (simp add: readTasks_def TrimSpace_ascii)

theorem readTasks_blank_file_is_empty_witness:
  "readTasks echoUnmarshal (Contents [CHR '' '', CHR 0x0A, CHR 0x09, CHR 0x0D]) = Inr [] \<and>
   readTasks echoUnmarshal (Contents (CHR 0x0A # ''[1, ] // c'' @ [CHR 0x0A])) =
     Inr [[(''label'', AStr ''[1 ] '')]]"
proof -
  have ws: "\<forall>c\<in>set [CHR '' '', CHR 0x0A, CHR 0x09, CHR 0x0D]. asciiSpace c"
    by (simp add: asciiSpace_def)
  have trim: "TrimSpace ([CHR 0x0A] @ ''[1, ] // c'' @ [CHR 0x0A]) = ''[1, ] // c''"
    by (rule TrimSpace_around) (simp_all add: asciiSpace_def)
  then have ne: "TrimSpace (CHR 0x0A # ''[1, ] // c'' @ [CHR 0x0A]) \<noteq> []" by simp
  have norm: "normalizeRelaxedJSON ''[1, ] // c'' = Inr ''[1 ] ''"
    by (simp add: normalize_eval)
  from readTasks_blank_file_is_empty [of echoUnmarshal "[CHR '' '', CHR 0x0A, CHR 0x09, CHR 0x0D]"] ws
  have 1: "readTasks echoUnmarshal (Contents [CHR '' '', CHR 0x0A, CHR 0x09, CHR 0x0D]) = Inr []"
    by blast
  from readTasks_blank_file_is_empty [of echoUnmarshal "CHR 0x0A # ''[1, ] // c'' @ [CHR 0x0A]"] ne
  have "readTasks echoUnmarshal (Contents (CHR 0x0A # ''[1, ] // c'' @ [CHR 0x0A])) =
      (case normalizeRelaxedJSON (TrimSpace (CHR 0x0A # ''[1, ] // c'' @ [CHR 0x0A])) of
         Inl err \<Rightarrow> Inl err | Inr normalized \<Rightarrow> echoUnmarshal normalized)"
    by blast
  with trim norm have 2: "readTasks echoUnmarshal (Contents (CHR 0x0A # ''[1, ] // c'' @ [CHR 0x0A])) =
     Inr [[(''label'', AStr ''[1 ] '')]]"
    by (simp add: echoUnmarshal_def)
  from 1 2 show ?thesis by simp
qed

end
